theory Spec2Isabelle
  imports Main
begin

section \<open>Strings, URLs and sets of URLs\<close>

type_synonym url = string

text \<open>
  JavaScript's \<open>String.prototype.startsWith\<close> and \<open>endsWith\<close> on a string read as its
  list of characters.
\<close>

definition startsWith :: "string \<Rightarrow> string \<Rightarrow> bool" where
  "startsWith s p = (take (length p) s = p)"

definition endsWith :: "string \<Rightarrow> string \<Rightarrow> bool" where
  "endsWith s p = (length p \<le> length s \<and> drop (length s - length p) s = p)"

text \<open>
  A JavaScript \<open>Set\<close> of URLs is kept as the list of its members in insertion order
  (the order in which \<open>for ... of\<close> visits them). \<open>set_delete\<close> is \<open>Set.prototype.delete\<close>,
  \<open>set_has\<close> is \<open>Set.prototype.has\<close>, \<open>set_size\<close> is the \<open>size\<close> property.
\<close>

definition set_delete :: "url \<Rightarrow> url list \<Rightarrow> url list" where
  "set_delete x xs = filter (\<lambda>y. y \<noteq> x) xs"

definition set_has :: "url list \<Rightarrow> url \<Rightarrow> bool" where
  "set_has xs x = (x \<in> set xs)"

definition set_size :: "url list \<Rightarrow> int" where
  "set_size xs = int (length xs)"

section \<open>Bundles\<close>

text \<open>
  The fields of a \<open>Bundle\<close>: the entrypoints that own it (its owner signature), the member
  files and the imports to strip. \<open>bundler.js\<close> reads and writes the last two.
\<close>

record Bundle =
  entrypoints :: "url list"
  files :: "url list"
  stripImports :: "url list"

section \<open>The exclusion filter (\<open>Bundler._filterExcludesFromBundles\<close>)\<close>

text \<open>
  The innermost loop, \<open>for (const file of bundle.files) if (file.startsWith(excludeAsFolder))
  bundle.files.delete(file)\<close>: every member present when the loop starts is visited once, and
  deleting the visited member does not disturb the iteration.
\<close>

definition deleteFolderFiles :: "string \<Rightarrow> url list \<Rightarrow> url list" where
  "deleteFolderFiles excludeAsFolder fs =
     foldl (\<lambda>cur file. if startsWith file excludeAsFolder then set_delete file cur else cur) fs fs"

text \<open>The body of \<open>for (const exclude of this.excludes)\<close>, for one bundle.\<close>

definition excludeAsFolder :: "url \<Rightarrow> string" where
  "excludeAsFolder exclude = (if endsWith exclude ''/'' then exclude else exclude @ ''/'')"

definition excludeFromBundle :: "Bundle \<Rightarrow> url \<Rightarrow> Bundle" where
  "excludeFromBundle b exclude =
     (let fs1 = set_delete exclude (files b)
      in b\<lparr>files := deleteFolderFiles (excludeAsFolder exclude) fs1\<rparr>)"

text \<open>
  The \<open>while (b < bundles.length)\<close> loop that follows: a bundle is spliced out when
  \<open>bundles[b].files.size < 0\<close>, otherwise the index moves on.
\<close>

function removeEmptyBundles :: "nat \<Rightarrow> Bundle list \<Rightarrow> Bundle list" where
  "removeEmptyBundles b bundles =
     (if b < length bundles then
        (if set_size (files (bundles ! b)) < 0
         then removeEmptyBundles b (take b bundles @ drop (Suc b) bundles)
         else removeEmptyBundles (Suc b) bundles)
      else bundles)"
  by pat_completeness auto
termination
  by (relation "measure (\<lambda>(b, bundles). length bundles - b)") (auto simp: set_size_def)

definition filterExcludesFromBundles :: "url list \<Rightarrow> Bundle list \<Rightarrow> Bundle list" where
  "filterExcludesFromBundles this_excludes bundles =
     removeEmptyBundles 0 (map (\<lambda>bundle. foldl excludeFromBundle bundle this_excludes) bundles)"

section \<open>Options and the constructor (\<open>Bundler.constructor\<close>)\<close>

text \<open>
  The values an untyped caller can put into the \<open>excludes\<close> option: \<open>Array.isArray\<close> tells
  an array of URLs from everything else.
\<close>

datatype js_value =
    JsUndefined
  | JsNull
  | JsBoolean bool
  | JsNumber int
  | JsString string
  | JsArray "url list"

type_synonym BundleStrategy = "Bundle list \<Rightarrow> Bundle list"

type_synonym BundleUrlMapper = "Bundle list \<Rightarrow> (url \<times> Bundle) list"

text \<open>
  The \<open>Options\<close> interface. Every field is optional: \<open>None\<close> is \<open>undefined\<close>. The
  \<open>analyzer\<close> option only selects the external analyzer and is left out.
\<close>

record Options =
  opt_excludes :: js_value
  opt_inlineCss :: "bool option"
  opt_inlineScripts :: "bool option"
  opt_rewriteUrlsInTemplates :: "bool option"
  opt_sourcemaps :: "bool option"
  opt_stripComments :: "bool option"
  opt_skipUnresolvedImports :: "bool option"
  opt_strategy :: "BundleStrategy option"
  opt_urlMapper :: "BundleUrlMapper option"

text \<open>The object \<open>{}\<close>.\<close>

definition emptyOptions :: Options where
  "emptyOptions = \<lparr>opt_excludes = JsUndefined, opt_inlineCss = None, opt_inlineScripts = None,
     opt_rewriteUrlsInTemplates = None, opt_sourcemaps = None, opt_stripComments = None,
     opt_skipUnresolvedImports = None, opt_strategy = None, opt_urlMapper = None\<rparr>"

text \<open>JavaScript's \<open>Boolean(x)\<close> on an optional boolean.\<close>

definition Boolean :: "bool option \<Rightarrow> bool" where
  "Boolean x = (case x of None \<Rightarrow> False | Some b \<Rightarrow> b)"

text \<open>
  Modelled from the spec: \<open>generateSharedDepsMergeStrategy\<close> of \<open>./bundle-manifest\<close>, which is
  not among the sources. Section 4.3: the default strategy merges every bundle whose owner
  signature has more than one entrypoint into a single shared bundle. The merged bundle is put
  after the bundles that are kept; the specification does not say where it goes.
\<close>

definition mergeBundles :: "Bundle list \<Rightarrow> Bundle" where
  "mergeBundles bs = \<lparr>entrypoints = remdups (concat (map entrypoints bs)),
     files = remdups (concat (map files bs)),
     stripImports = remdups (concat (map stripImports bs))\<rparr>"

definition generateSharedDepsMergeStrategy :: BundleStrategy where
  "generateSharedDepsMergeStrategy bundles =
     (let shared = filter (\<lambda>b. 1 < length (entrypoints b)) bundles
      in if shared = [] then bundles
         else filter (\<lambda>b. \<not> 1 < length (entrypoints b)) bundles @ [mergeBundles shared])"

text \<open>The decimal digits of a counter.\<close>

fun decimal :: "nat \<Rightarrow> string" where
  "decimal n =
     (if n < 10 then [char_of (48 + n)]
      else decimal (n div 10) @ [char_of (48 + n mod 10)])"

declare decimal.simps [simp del]

text \<open>
  Modelled from the spec: \<open>generateCountingSharedBundleUrlMapper\<close> of \<open>./bundle-manifest\<close>,
  which is not among the sources. Section 4.3: a bundle whose owner signature is a single
  entrypoint reuses that entrypoint's URL; every other bundle gets a synthetic name, the fixed
  prefix plus a counter that increments in first-encountered order.
\<close>

fun countingUrls :: "string \<Rightarrow> nat \<Rightarrow> Bundle list \<Rightarrow> (url \<times> Bundle) list" where
  "countingUrls urlPrefix counter [] = []"
| "countingUrls urlPrefix counter (b # bs) =
     (case entrypoints b of
        [e] \<Rightarrow> (e, b) # countingUrls urlPrefix counter bs
      | _ \<Rightarrow> (urlPrefix @ decimal (Suc counter), b) # countingUrls urlPrefix (Suc counter) bs)"

definition generateCountingSharedBundleUrlMapper :: "string \<Rightarrow> BundleUrlMapper" where
  "generateCountingSharedBundleUrlMapper urlPrefix bundles = countingUrls urlPrefix 0 bundles"

text \<open>The fields the constructor sets, apart from the analyzer and its overlay loader.\<close>

record Bundler =
  excludes :: "url list"
  stripComments :: bool
  enableCssInlining :: bool
  enableScriptInlining :: bool
  rewriteUrlsInTemplates :: bool
  skipUnresolvedImports :: bool
  sourcemaps :: bool
  strategy :: BundleStrategy
  urlMapper :: BundleUrlMapper

definition constructor_opts :: "Options option \<Rightarrow> Options" where
  "constructor_opts options = (case options of Some opts \<Rightarrow> opts | None \<Rightarrow> emptyOptions)"

definition constructor :: "Options option \<Rightarrow> Bundler" where
  "constructor options =
     (let opts = constructor_opts options in
      \<lparr>excludes = (case opt_excludes opts of JsArray xs \<Rightarrow> xs | _ \<Rightarrow> []),
       stripComments = Boolean (opt_stripComments opts),
       enableCssInlining = (case opt_inlineCss opts of None \<Rightarrow> True | Some v \<Rightarrow> v),
       enableScriptInlining = (case opt_inlineScripts opts of None \<Rightarrow> True | Some v \<Rightarrow> v),
       rewriteUrlsInTemplates = Boolean (opt_rewriteUrlsInTemplates opts),
       skipUnresolvedImports = (opt_skipUnresolvedImports opts = Some True),
       sourcemaps = Boolean (opt_sourcemaps opts),
       strategy = (case opt_strategy opts of Some f \<Rightarrow> f | None \<Rightarrow> generateSharedDepsMergeStrategy),
       urlMapper = (case opt_urlMapper opts of Some f \<Rightarrow> f
                    | None \<Rightarrow> generateCountingSharedBundleUrlMapper ''shared_bundle_'')\<rparr>)"

section \<open>The production pipeline of one bundle (\<open>Bundler._bundleDocument\<close>)\<close>

text \<open>
  The steps \<open>_bundleDocument\<close> calls, in the order it calls them. The steps themselves work
  on the tree through \<open>./import-utils\<close>, \<open>./ast-utils\<close> and the analyzer; what is kept here is
  which of them run for a given \<open>Bundler\<close>.
\<close>

datatype step =
    PrepareBundleDocument
  | InjectHtmlImportsForBundle
  | RewriteAstToEmulateBaseTag
  | AnalyzeContents
  | InlineHtmlImports
  | InlineScripts
  | InlineStylesheetLinks
  | InlineStylesheetImports
  | StripComments
  | RemoveEmptyHiddenDivs
  | UpdateSourcemapLocations

definition bundleDocument_steps :: "Bundler \<Rightarrow> step list" where
  "bundleDocument_steps this =
     [PrepareBundleDocument, InjectHtmlImportsForBundle, RewriteAstToEmulateBaseTag,
      AnalyzeContents, InlineHtmlImports]
     @ (if enableScriptInlining this then [InlineScripts] else [])
     @ (if enableCssInlining this then [InlineStylesheetLinks, InlineStylesheetImports] else [])
     @ (if stripComments this then [StripComments] else [])
     @ [RemoveEmptyHiddenDivs]
     @ (if sourcemaps this then [UpdateSourcemapLocations] else [])"

text \<open>
  \<open>bundle\<close> runs the pipeline once for every entry of the manifest, in the manifest's order.
\<close>

definition bundle_steps :: "Bundler \<Rightarrow> (url \<times> Bundle) list \<Rightarrow> (url \<times> step list) list" where
  "bundle_steps this manifest_bundles =
     map (\<lambda>bundleEntry. (fst bundleEntry, bundleDocument_steps this)) manifest_bundles"

section \<open>The dependency index (\<open>buildDepsIndex\<close> of \<open>./deps-index\<close>)\<close>

text \<open>
  The analyzer's answer to the feature query of a document: for every known document, its
  import links in source order, each with its laziness flag (\<open>True\<close> for a lazy import) and
  its resolved target. A URL without an entry has no import links.
\<close>

type_synonym import_graph = "(url \<times> (bool \<times> url) list) list"

definition featuresOf :: "import_graph \<Rightarrow> url \<Rightarrow> (bool \<times> url) list" where
  "featuresOf g u = (case map_of g u of None \<Rightarrow> [] | Some fs \<Rightarrow> fs)"

definition eagerImports :: "import_graph \<Rightarrow> url \<Rightarrow> url list" where
  "eagerImports g u = map snd (filter (\<lambda>f. \<not> fst f) (featuresOf g u))"

definition lazyImports :: "import_graph \<Rightarrow> url \<Rightarrow> url list" where
  "lazyImports g u = map snd (filter fst (featuresOf g u))"

definition graphUrls :: "import_graph \<Rightarrow> url list" where
  "graphUrls g = concat (map (\<lambda>e. map snd (snd e)) g)"

lemma featuresOf_graphUrls: "f \<in> set (featuresOf g u) \<Longrightarrow> snd f \<in> set (graphUrls g)"
proof -
  assume f: "f \<in> set (featuresOf g u)"
  then obtain fs where fs: "map_of g u = Some fs" "f \<in> set fs"
    by (cases "map_of g u") (auto simp: featuresOf_def)
  then have "(u, fs) \<in> set g" by (simp add: map_of_SomeD)
  with fs(2) show ?thesis unfolding graphUrls_def by force
qed

lemma eagerImports_graphUrls: "set (eagerImports g u) \<subseteq> set (graphUrls g)"
  by (auto simp: eagerImports_def dest: featuresOf_graphUrls)

lemma lazyImports_graphUrls: "set (lazyImports g u) \<subseteq> set (graphUrls g)"
  by (auto simp: lazyImports_def dest: featuresOf_graphUrls)

text \<open>
  Modelled from the spec: the transitive walk of \<open>buildDepsIndex\<close>; \<open>./deps-index\<close> is not
  among the sources, only its test is. Section 4.1: eager imports are followed transitively,
  every reached URL is collected with the entrypoint itself, a lazy import's target is not
  followed but recorded, and a per-entrypoint visited set keeps a document from being followed
  twice.
\<close>

function walkEager :: "import_graph \<Rightarrow> url list \<Rightarrow> url list \<Rightarrow> url list \<Rightarrow> url list \<times> url list" where
  "walkEager g [] visited lazies = (visited, lazies)"
| "walkEager g (u # todo) visited lazies =
     (if u \<in> set visited then walkEager g todo visited lazies
      else walkEager g (eagerImports g u @ todo) (visited @ [u]) (lazies @ lazyImports g u))"
  by pat_completeness auto
termination
proof (relation "measures [\<lambda>(g, todo, visited, lazies). card ((set (graphUrls g) \<union> set todo) - set visited),
                           \<lambda>(g, todo, visited, lazies). length todo]", goal_cases)
  case 1
  show ?case by simp
next
  case (2 g u todo visited lazies)
  have "(set (graphUrls g) \<union> set todo) - set visited \<subseteq> (set (graphUrls g) \<union> set (u # todo)) - set visited"
    by auto
  then have "card ((set (graphUrls g) \<union> set todo) - set visited)
      \<le> card ((set (graphUrls g) \<union> set (u # todo)) - set visited)"
    by (intro card_mono) auto
  then show ?case by auto
next
  case (3 g u todo visited lazies)
  have "(set (graphUrls g) \<union> set (eagerImports g u @ todo)) - set (visited @ [u])
      \<subset> (set (graphUrls g) \<union> set (u # todo)) - set visited"
    using 3 eagerImports_graphUrls [of g u] by auto
  then have "card ((set (graphUrls g) \<union> set (eagerImports g u @ todo)) - set (visited @ [u]))
      < card ((set (graphUrls g) \<union> set (u # todo)) - set visited)"
    by (intro psubset_card_mono) auto
  then show ?case by auto
qed

definition hasEntry :: "(url \<times> url list) list \<Rightarrow> url \<Rightarrow> bool" where
  "hasEntry index e = (e \<in> set (map fst index))"

lemma walkEager_lazies:
  "walkEager g todo visited lazies = (v, l) \<Longrightarrow> set l \<subseteq> set lazies \<union> set (graphUrls g)"
proof (induction g todo visited lazies rule: walkEager.induct)
  case (1 g visited lazies)
  then show ?case by auto
next
  case (2 g u todo visited lazies)
  then show ?case using lazyImports_graphUrls [of g u] by (auto split: if_splits)
qed

text \<open>
  Modelled from the spec: the work loop of \<open>buildDepsIndex\<close>. Section 4.1: the work set is
  seeded with the requested entrypoints; an entrypoint not yet processed gets its closure;
  every lazy target met on the walk is enqueued as a new entrypoint unless it is already known.
  The index is kept as the list of its entries in insertion order.
\<close>

function buildLoop :: "import_graph \<Rightarrow> url list \<Rightarrow> (url \<times> url list) list \<Rightarrow> (url \<times> url list) list" where
  "buildLoop g [] index = index"
| "buildLoop g (e # queue) index =
     (if hasEntry index e then buildLoop g queue index
      else (let walked = walkEager g [e] [] [];
                index' = index @ [(e, fst walked)]
            in buildLoop g (queue @ filter (\<lambda>l. \<not> hasEntry index' l) (snd walked)) index'))"
  by pat_completeness auto
termination
proof (relation "measures [\<lambda>(g, queue, index). card ((set (graphUrls g) \<union> set queue) - set (map fst index)),
                           \<lambda>(g, queue, index). length queue]", goal_cases)
  case 1
  show ?case by simp
next
  case (2 g e queue index)
  have "card ((set (graphUrls g) \<union> set queue) - set (map fst index))
      \<le> card ((set (graphUrls g) \<union> set (e # queue)) - set (map fst index))"
    by (intro card_mono) auto
  then show ?case by auto
next
  case (3 g e queue index walked index')
  obtain v l where w: "walkEager g [e] [] [] = (v, l)" by (cases "walkEager g [e] [] []")
  have l: "set l \<subseteq> set (graphUrls g)" using walkEager_lazies [OF w] by simp
  have "(set (graphUrls g) \<union> set (queue @ filter (\<lambda>l. \<not> hasEntry index' l) (snd walked))) - set (map fst index')
      \<subset> (set (graphUrls g) \<union> set (e # queue)) - set (map fst index)"
    using 3 l w by (auto simp: hasEntry_def)
  then have "card ((set (graphUrls g) \<union> set (queue @ filter (\<lambda>l. \<not> hasEntry index' l) (snd walked))) - set (map fst index'))
      < card ((set (graphUrls g) \<union> set (e # queue)) - set (map fst index))"
    by (intro psubset_card_mono) auto
  then show ?case by auto
qed

definition buildDepsIndex :: "import_graph \<Rightarrow> url list \<Rightarrow> (url \<times> url list) list" where
  "buildDepsIndex g requested = buildLoop g requested []"

text \<open>The eager import relation of a graph, and the closure the walk computes for one URL.\<close>

definition eagerEdge :: "import_graph \<Rightarrow> (url \<times> url) set" where
  "eagerEdge g = {(a, b). b \<in> set (eagerImports g a)}"

definition closureOf :: "import_graph \<Rightarrow> url \<Rightarrow> url list" where
  "closureOf g e = fst (walkEager g [e] [] [])"

text \<open>
  The invariant of the work loop: keys are unique, every entry holds the closure of its key, and
  every lazy target recorded on the walk of a key is an entry or still waits in the queue.
\<close>

definition indexInv :: "import_graph \<Rightarrow> url list \<Rightarrow> (url \<times> url list) list \<Rightarrow> bool" where
  "indexInv g queue index =
     (distinct (map fst index) \<and>
      (\<forall>(e, deps) \<in> set index. deps = closureOf g e \<and>
         (\<forall>l \<in> set (snd (walkEager g [e] [] [])). hasEntry index l \<or> l \<in> set queue)))"

text \<open>
  The lazy-import scenario of the test \<open>with lazy imports\<close>. The fixture files are not among
  the sources; the import links below are the ones the specification states for the entrypoint
  (one eager import, three lazy ones) and, for the other documents, links that give the
  closures the test expects.
\<close>

definition lazyImportsFixture :: import_graph where
  "lazyImportsFixture =
     [(''lazy-imports.html'',
        [(True, ''lazy-imports/lazy-import-1.html''),
         (True, ''lazy-imports/lazy-import-2.html''),
         (True, ''lazy-imports/subfolder/lazy-import-3.html''),
         (False, ''lazy-imports/shared-eager-and-lazy-import-1.html'')]),
      (''lazy-imports/lazy-import-1.html'',
        [(False, ''lazy-imports/shared-eager-import-1.html''),
         (False, ''lazy-imports/shared-eager-import-2.html''),
         (True, ''lazy-imports/shared-eager-and-lazy-import-1.html''),
         (True, ''lazy-imports/deeply-lazy-import-1.html'')]),
      (''lazy-imports/lazy-import-2.html'',
        [(False, ''lazy-imports/shared-eager-import-1.html''),
         (False, ''lazy-imports/shared-eager-import-2.html''),
         (False, ''lazy-imports/shared-eager-and-lazy-import-1.html''),
         (False, ''lazy-imports/subfolder/eager-import-1.html'')]),
      (''lazy-imports/subfolder/eager-import-1.html'',
        [(False, ''lazy-imports/subfolder/eager-import-2.html'')]),
      (''lazy-imports/deeply-lazy-import-1.html'',
        [(False, ''lazy-imports/deeply-lazy-imports-eager-import-1.html'')])]"

text \<open>
  The scenario of the test \<open>with 3 endpoints\<close>, with import links that give the closures the
  test expects.
\<close>

definition threeEndpointsFixture :: import_graph where
  "threeEndpointsFixture =
     [(''endpoint1.html'', [(False, ''common.html''), (False, ''dep1.html'')]),
      (''endpoint2.html'',
        [(False, ''common.html''), (False, ''dep2.html''), (False, ''endpoint1.html'')])]"

section \<open>Manifests as objects (\<open>Bundler.bundle\<close>)\<close>

text \<open>
  \<open>bundle\<close> is handed a reference to a manifest whose bundles are objects with mutable sets, so
  the store is explicit: bundle objects and manifest objects live at addresses, a manifest
  object is its ordered map from output URL to the address of the bundle, and \<open>nextFree\<close> is the
  next address an allocation returns.
\<close>

record store =
  bundleAt :: "nat \<Rightarrow> Bundle option"
  manifestAt :: "nat \<Rightarrow> (url \<times> nat) list option"
  nextFree :: nat

text \<open>
  Modelled from the spec: \<open>BundleManifest.fork\<close> of \<open>./bundle-manifest\<close>, which is not among
  the sources. Section 3: the fork is a structurally independent deep copy that shares no
  mutable set with the original. Every bundle is copied into a newly allocated object and the
  fork is a newly allocated manifest over the copies. A reference to no manifest has no
  \<open>fork\<close> method: the call throws, which is \<open>None\<close>.
\<close>

fun forkBundles :: "store \<Rightarrow> (url \<times> nat) list \<Rightarrow> store \<times> (url \<times> nat) list" where
  "forkBundles s [] = (s, [])"
| "forkBundles s ((u, b) # entries) =
     (let a = nextFree s;
          s1 = s\<lparr>bundleAt := (bundleAt s)(a := bundleAt s b), nextFree := Suc a\<rparr>;
          rest = forkBundles s1 entries
      in (fst rest, (u, a) # snd rest))"

definition fork :: "store \<Rightarrow> nat \<Rightarrow> (store \<times> nat) option" where
  "fork s m =
     (case manifestAt s m of
        None \<Rightarrow> None
      | Some entries \<Rightarrow>
          (let copied = forkBundles s entries;
               s1 = fst copied;
               a = nextFree s1
           in Some (s1\<lparr>manifestAt := (manifestAt s1)(a := Some (snd copied)), nextFree := Suc a\<rparr>, a)))"

text \<open>
  What \<open>_bundleDocument\<close> does to the store: it is given the bundle's URL, the reference to the
  bundle and the bundles of the manifest, it may write to bundle objects (the inlining steps of
  \<open>./import-utils\<close> receive both references), and it returns the bundled tree.
\<close>

type_synonym 'ast production =
  "url \<Rightarrow> nat \<Rightarrow> (url \<times> nat) list \<Rightarrow> (nat \<Rightarrow> Bundle option) \<Rightarrow> (nat \<Rightarrow> Bundle option) \<times> 'ast"

text \<open>
  The loop \<open>for (const bundleEntry of manifest.bundles)\<close> of \<open>bundle\<close>; the files recorded for
  a document are read from the bundle object after its production.
\<close>

fun bundleLoop :: "'ast production \<Rightarrow> (url \<times> nat) list \<Rightarrow> (url \<times> nat) list \<Rightarrow>
    (nat \<Rightarrow> Bundle option) \<Rightarrow> (url \<times> 'ast \<times> url list) list \<Rightarrow>
    (nat \<Rightarrow> Bundle option) \<times> (url \<times> 'ast \<times> url list) list" where
  "bundleLoop bundleDocument manifest_bundles [] h documents = (h, documents)"
| "bundleLoop bundleDocument manifest_bundles ((bundleUrl, b) # entries) h documents =
     (let produced = bundleDocument bundleUrl b manifest_bundles h;
          h1 = fst produced;
          fs = (case h1 b of Some bundle \<Rightarrow> files bundle | None \<Rightarrow> [])
      in bundleLoop bundleDocument manifest_bundles entries h1
           (documents @ [(bundleUrl, snd produced, fs)]))"

text \<open>
  \<open>bundle(manifest)\<close>: the parameter is rebound to \<open>manifest.fork()\<close> before anything else,
  and the result holds that manifest and the documents.
\<close>

definition Bundler_bundle :: "'ast production \<Rightarrow> store \<Rightarrow> nat \<Rightarrow>
    (store \<times> nat \<times> (url \<times> 'ast \<times> url list) list) option" where
  "Bundler_bundle bundleDocument s manifest =
     (case fork s manifest of
        None \<Rightarrow> None
      | Some (s1, forked) \<Rightarrow>
          (case manifestAt s1 forked of
             None \<Rightarrow> None
           | Some entries \<Rightarrow>
               (let looped = bundleLoop bundleDocument entries entries (bundleAt s1) []
                in Some (s1\<lparr>bundleAt := fst looped\<rparr>, forked, snd looped))))"

text \<open>
  A production step writes only to the bundle objects of the manifest it is given.
\<close>

definition writesOnlyGiven :: "'ast production \<Rightarrow> bool" where
  "writesOnlyGiven bundleDocument =
     (\<forall>bundleUrl b entries h a.
        a \<notin> snd ` set entries \<longrightarrow> fst (bundleDocument bundleUrl b entries h) a = h a)"

text \<open>
  A store with one manifest of one bundle, and a production step that adds a file to the
  bundle it is given.
\<close>

definition exampleStore :: store where
  "exampleStore =
     \<lparr>bundleAt = (\<lambda>a. if a = 0 then Some \<lparr>entrypoints = [''a.html''], files = [''a.html''],
                      stripImports = []\<rparr> else None),
      manifestAt = (\<lambda>a. if a = 1 then Some [(''a.html'', 0)] else None),
      nextFree = 2\<rparr>"

definition exampleProduction :: "unit production" where
  "exampleProduction bundleUrl b entries h =
     (if b \<in> snd ` set entries
      then (h(b := map_option (\<lambda>x. x\<lparr>files := files x @ [''inlined.html'']\<rparr>) (h b)), ())
      else (h, ()))"

section \<open>Document trees (\<open>parse5\<close> and \<open>dom5\<close>)\<close>

text \<open>
  A node of a parsed document: \<open>nid\<close> stands for the identity of the JavaScript object (what
  a reference to the node refers to), \<open>location\<close> is the line and column \<open>parse5\<close> records in
  \<open>__location\<close> (absent on nodes the bundler creates). The \<open>#document\<close> root carries nothing
  but its children, so a tree is the list of the root's children.
\<close>

datatype node = Node (nid: nat) (nodeName: string) (attrs: "(string \<times> string) list")
  (location: "(nat \<times> nat) option") (childNodes: "node list")

type_synonym ast = "node list"

fun preorder :: "node \<Rightarrow> node list" where
  "preorder (Node i n a l cs) = Node i n a l cs # concat (map preorder cs)"

definition docOrder :: "ast \<Rightarrow> node list" where
  "docOrder ast = concat (map preorder ast)"

definition ids :: "ast \<Rightarrow> nat list" where
  "ids ast = map nid (docOrder ast)"

text \<open>Elements are the nodes whose name is a tag name, not \<open>#text\<close>, \<open>#comment\<close> and the like.\<close>

definition isElement :: "node \<Rightarrow> bool" where
  "isElement n = (case nodeName n of [] \<Rightarrow> False | c # cs \<Rightarrow> c \<noteq> CHR ''#'')"

text \<open>\<open>dom5.query\<close>: the first element in document order that satisfies the predicate.\<close>

definition query :: "ast \<Rightarrow> (node \<Rightarrow> bool) \<Rightarrow> node option" where
  "query ast predicate = find (\<lambda>n. isElement n \<and> predicate n) (docOrder ast)"


text \<open>
  The \<open>parentNode\<close> of a node of the tree: an inner node, or the \<open>#document\<close> root for a child
  of the root.
\<close>

datatype parent_ref = DocumentRoot | Parent nat

definition parentNode :: "ast \<Rightarrow> nat \<Rightarrow> parent_ref" where
  "parentNode ast k =
     (case find (\<lambda>p. k \<in> nid ` set (childNodes p)) (docOrder ast) of
        Some p \<Rightarrow> Parent (nid p)
      | None \<Rightarrow> DocumentRoot)"

fun updNode :: "nat \<Rightarrow> (node list \<Rightarrow> node list) \<Rightarrow> node \<Rightarrow> node" where
  "updNode p f (Node i n a l cs) = Node i n a l (if i = p then f cs else map (updNode p f) cs)"

text \<open>Assigning \<open>f (parent.childNodes)\<close> to \<open>parent.childNodes\<close>.\<close>

fun updateChildren :: "parent_ref \<Rightarrow> (node list \<Rightarrow> node list) \<Rightarrow> ast \<Rightarrow> ast" where
  "updateChildren DocumentRoot f ast = f ast"
| "updateChildren (Parent p) f ast = map (updNode p f) ast"

text \<open>The node of the tree with a given identity, and the child nodes of a parent.\<close>

definition nodeAt :: "ast \<Rightarrow> nat \<Rightarrow> node option" where
  "nodeAt ast p = find (\<lambda>x. nid x = p) (docOrder ast)"

fun childrenOf :: "parent_ref \<Rightarrow> ast \<Rightarrow> node list" where
  "childrenOf DocumentRoot ast = ast"
| "childrenOf (Parent p) ast = (case nodeAt ast p of Some n \<Rightarrow> childNodes n | None \<Rightarrow> [])"

text \<open>\<open>Array.prototype.indexOf\<close> on a list of child nodes, by identity.\<close>

fun indexOf :: "nat \<Rightarrow> node list \<Rightarrow> int" where
  "indexOf k [] = - 1"
| "indexOf k (c # cs) =
     (if nid c = k then 0 else (let i = indexOf k cs in if i < 0 then - 1 else i + 1))"

text \<open>
  \<open>childNodes.splice(index, 0, newNode)\<close>: a negative index counts from the end, an index
  beyond the end is the end.
\<close>

definition spliceInsert :: "int \<Rightarrow> node \<Rightarrow> node list \<Rightarrow> node list" where
  "spliceInsert index newNode cs =
     (let len = int (length cs);
          start = (if index < 0 then max 0 (len + index) else min index len)
      in take (nat start) cs @ newNode # drop (nat start) cs)"

text \<open>
  \<open>dom5.insertBefore(parent, target, newNode)\<close> and \<open>dom5.append(parent, newNode)\<close>, for a
  \<open>newNode\<close> that is in no tree yet.
\<close>

definition dom5_insertBefore :: "parent_ref \<Rightarrow> nat \<Rightarrow> node \<Rightarrow> ast \<Rightarrow> ast" where
  "dom5_insertBefore parent target newNode ast =
     updateChildren parent (\<lambda>cs. spliceInsert (indexOf target cs) newNode cs) ast"

definition dom5_append :: "parent_ref \<Rightarrow> node \<Rightarrow> ast \<Rightarrow> ast" where
  "dom5_append parent newNode ast =
     updateChildren parent (\<lambda>cs. spliceInsert (int (length cs)) newNode cs) ast"

text \<open>
  \<open>dom5.predicates.parentMatches(predicate)(node)\<close>: some ancestor of the node satisfies the
  predicate.
\<close>

definition parentMatches :: "(node \<Rightarrow> bool) \<Rightarrow> ast \<Rightarrow> nat \<Rightarrow> bool" where
  "parentMatches predicate ast k =
     (\<exists>p \<in> set (docOrder ast). k \<in> nid ` set (docOrder (childNodes p)) \<and> predicate p)"

text \<open>
  The predicates of \<open>./matchers\<close> that \<open>bundler.js\<close> uses. The file is not among the sources, so
  they are parameters: each looks at the tag name and the attributes of a node.
\<close>

type_synonym matcher = "string \<Rightarrow> (string \<times> string) list \<Rightarrow> bool"

record matchers =
  body :: matcher
  eagerHtmlImport :: matcher
  head :: matcher
  hiddenDiv :: matcher
  htmlImport :: matcher
  orderedImperative :: matcher

definition matches :: "matcher \<Rightarrow> node \<Rightarrow> bool" where
  "matches m n = m (nodeName n) (attrs n)"

text \<open>
  Modelled from the spec: \<open>astUtils.insertAfter\<close> and \<open>astUtils.prepend\<close> of \<open>./ast-utils\<close>, which
  is not among the sources. The comment of \<open>_attachHiddenDiv\<close> says what they are called for:
  to place the new node at the place of (right behind) a given node, and to prepend it to the
  children of a given node.
\<close>

definition astUtils_insertAfter :: "nat \<Rightarrow> node \<Rightarrow> ast \<Rightarrow> ast" where
  "astUtils_insertAfter target newNode ast =
     updateChildren (parentNode ast target)
       (\<lambda>cs. spliceInsert (indexOf target cs + 1) newNode cs) ast"

definition astUtils_prepend :: "nat \<Rightarrow> node \<Rightarrow> ast \<Rightarrow> ast" where
  "astUtils_prepend parent newNode ast = updateChildren (Parent parent) (\<lambda>cs. newNode # cs) ast"

text \<open>
  Modelled from the spec: \<open>astUtils.sameNode\<close> and \<open>astUtils.inSourceOrder\<close> of \<open>./ast-utils\<close>.
  Section 4.4 step 4 chooses the import that appears earliest in document source order; the
  source position of a node is its \<open>location\<close>. Two nodes of two copies of a tree are the same
  node when they have the same name and the same recorded position.
\<close>

definition sameNode :: "node \<Rightarrow> node \<Rightarrow> bool" where
  "sameNode node1 node2 =
     (nodeName node1 = nodeName node2 \<and> location node1 \<noteq> None \<and> location node1 = location node2)"

definition positionBefore :: "nat \<times> nat \<Rightarrow> nat \<times> nat \<Rightarrow> bool" where
  "positionBefore l r = (fst l < fst r \<or> (fst l = fst r \<and> snd l < snd r))"

definition inSourceOrder :: "node \<Rightarrow> node \<Rightarrow> bool" where
  "inSourceOrder left right =
     (case (location left, location right) of
        (Some l, Some r) \<Rightarrow> positionBefore l r
      | _ \<Rightarrow> False)"

section \<open>The hidden container (\<open>_createHiddenDiv\<close>, \<open>_attachHiddenDiv\<close>, \<open>_findOrCreateHiddenDiv\<close>)\<close>

definition createHiddenDiv :: "nat \<Rightarrow> node" where
  "createHiddenDiv i = Node i ''div'' [(''hidden'', ''''), (''by-polymer-bundler'', '''')] None []"

definition createHtmlImport :: "nat \<Rightarrow> url \<Rightarrow> node" where
  "createHtmlImport i u = Node i ''link'' [(''rel'', ''import''), (''href'', u)] None []"

definition attachHiddenDiv :: "matchers \<Rightarrow> ast \<Rightarrow> node \<Rightarrow> ast" where
  "attachHiddenDiv M ast newDiv =
     (let firstHtmlImport = query ast (matches (eagerHtmlImport M));
          bodyNode = query ast (matches (body M))
      in case bodyNode of
           Some b \<Rightarrow>
             (case firstHtmlImport of
                Some imp \<Rightarrow>
                  if parentMatches (matches (body M)) ast (nid imp)
                  then astUtils_insertAfter (nid imp) newDiv ast
                  else astUtils_prepend (nid b) newDiv ast
              | None \<Rightarrow> astUtils_prepend (nid b) newDiv ast)
         | None \<Rightarrow> dom5_append DocumentRoot newDiv ast)"

text \<open>
  The tree comes with the next unused identity; a created node takes it. The result is the
  tree, the next unused identity and the identity of the hidden container.
\<close>

definition findOrCreateHiddenDiv :: "matchers \<Rightarrow> ast \<times> nat \<Rightarrow> ast \<times> nat \<times> nat" where
  "findOrCreateHiddenDiv M st =
     (case query (fst st) (matches (hiddenDiv M)) of
        Some found \<Rightarrow> (fst st, snd st, nid found)
      | None \<Rightarrow> (attachHiddenDiv M (fst st) (createHiddenDiv (snd st)), Suc (snd st), snd st))"

section \<open>Import injection (\<open>_injectHtmlImportsForBundle\<close>)\<close>

text \<open>
  An \<open>html-import\<close> feature of an analyzed document: its laziness, the URL of the imported
  document, its node in the analyzed tree, and what the imported document answers to
  \<open>getFeatures({kind: 'html-import', imported: true, noLazyImports: true})\<close>, each answer with
  its laziness and the URL of its document.
\<close>

record Import =
  lazy :: bool
  documentUrl :: url
  astNode :: node
  importedFeatures :: "(bool \<times> url) list"

text \<open>
  An analyzed document: its URL, its answer to
  \<open>getFeatures({kind: 'html-import', noLazyImports: true, imported: false})\<close>, and its parsed
  tree with the next unused node identity.
\<close>

record Document =
  url :: url
  htmlImportFeatures :: "Import list"
  parsedDocument :: "ast \<times> nat"

definition existingImports :: "Document \<Rightarrow> Import list" where
  "existingImports document = filter (\<lambda>i. \<not> lazy i) (htmlImportFeatures document)"

text \<open>
  The \<open>Map\<close> from the URL of an existing import to the URLs of its transitive eager imports; of
  two entries with the same key the later one stays.
\<close>

definition existingImportDependencies :: "Document \<Rightarrow> url \<Rightarrow> url list option" where
  "existingImportDependencies document =
     map_of (rev (map (\<lambda>existingImport. (documentUrl existingImport,
        map snd (filter (\<lambda>f. \<not> fst f) (importedFeatures existingImport))))
        (existingImports document)))"

text \<open>
  The body of the inner loop, which looks for the earliest dependent import. Every existing
  import has its entry in the map of dependencies.
\<close>

definition prependTargetStep ::
    "Document \<Rightarrow> ast \<Rightarrow> url \<Rightarrow> node option \<Rightarrow> Import \<Rightarrow> node option" where
  "prependTargetStep document ast importUrl prependTarget existingImport =
     (case existingImportDependencies document (documentUrl existingImport) of
        None \<Rightarrow> prependTarget
      | Some deps \<Rightarrow>
          if importUrl \<in> set deps then
            (case query ast (\<lambda>n. sameNode n (astNode existingImport)) of
               None \<Rightarrow> prependTarget
             | Some newPrependTarget \<Rightarrow>
                 (case prependTarget of
                    None \<Rightarrow> Some newPrependTarget
                  | Some old \<Rightarrow>
                      if inSourceOrder newPrependTarget old then Some newPrependTarget
                      else Some old))
          else prependTarget)"

definition findPrependTarget :: "Document \<Rightarrow> url list \<Rightarrow> ast \<Rightarrow> url \<Rightarrow> node option" where
  "findPrependTarget document bundleFiles ast importUrl =
     foldl (prependTargetStep document ast importUrl) None
       (filter (\<lambda>e. \<not> set_has bundleFiles (documentUrl e)) (existingImports document))"

text \<open>
  The body of the outer loop, for one file of the bundle. \<open>relativeUrl\<close> is
  \<open>urlUtils.relativeUrl\<close> of \<open>./url-utils\<close>, a parameter.
\<close>

definition injectHtmlImport ::
    "matchers \<Rightarrow> (url \<Rightarrow> url \<Rightarrow> url) \<Rightarrow> Document \<Rightarrow> url \<Rightarrow> url list \<Rightarrow> ast \<times> nat \<Rightarrow> url \<Rightarrow>
     ast \<times> nat" where
  "injectHtmlImport M relativeUrl document bundleUrl bundleFiles st importUrl =
     (if bundleUrl = importUrl then st
      else if \<exists>e \<in> set (existingImports document). documentUrl e = importUrl then st
      else
        (let prependTarget = findPrependTarget document bundleFiles (fst st) importUrl;
             newHtmlImport = createHtmlImport (snd st) (relativeUrl bundleUrl importUrl)
         in case prependTarget of
              Some target \<Rightarrow>
                (dom5_insertBefore (parentNode (fst st) (nid target)) (nid target) newHtmlImport
                   (fst st), Suc (snd st))
            | None \<Rightarrow>
                (let found = findOrCreateHiddenDiv M (fst st, Suc (snd st));
                     ast1 = fst found;
                     hiddenDivNode = snd (snd found)
                 in (dom5_append (parentNode ast1 hiddenDivNode) newHtmlImport ast1,
                     fst (snd found)))))"

text \<open>
  The anchors the loop can choose for an injected URL: the nodes found in the tree for the
  existing direct eager imports that are no members of the bundle and have the URL among their
  transitive eager dependencies.
\<close>

definition anchorOf :: "Document \<Rightarrow> ast \<Rightarrow> url \<Rightarrow> Import \<Rightarrow> node option" where
  "anchorOf document ast importUrl existingImport =
     (case existingImportDependencies document (documentUrl existingImport) of
        None \<Rightarrow> None
      | Some deps \<Rightarrow>
          if importUrl \<in> set deps then query ast (\<lambda>n. sameNode n (astNode existingImport))
          else None)"

definition anchorCandidates :: "Document \<Rightarrow> url list \<Rightarrow> ast \<Rightarrow> url \<Rightarrow> node list" where
  "anchorCandidates document bundleFiles ast importUrl =
     concat (map (\<lambda>e. case anchorOf document ast importUrl e of None \<Rightarrow> [] | Some n \<Rightarrow> [n])
       (filter (\<lambda>e. \<not> set_has bundleFiles (documentUrl e)) (existingImports document)))"

definition injectHtmlImportsForBundle ::
    "matchers \<Rightarrow> (url \<Rightarrow> url \<Rightarrow> url) \<Rightarrow> Document \<Rightarrow> url \<Rightarrow> Bundle \<Rightarrow> ast \<times> nat \<Rightarrow> ast \<times> nat" where
  "injectHtmlImportsForBundle M relativeUrl document bundleUrl bundle st =
     foldl (injectHtmlImport M relativeUrl document bundleUrl (files bundle)) st (files bundle)"

text \<open>
  What a node is apart from its children: identity, name, attributes and recorded position. The
  labels of a tree are those of its nodes in document order.
\<close>

type_synonym nodeLabel = "nat \<times> string \<times> (string \<times> string) list \<times> (nat \<times> nat) option"

definition label :: "node \<Rightarrow> nodeLabel" where
  "label n = (nid n, nodeName n, attrs n, location n)"

definition labels :: "ast \<Rightarrow> nodeLabel list" where
  "labels ast = map label (docOrder ast)"

definition labelLocation :: "nodeLabel \<Rightarrow> (nat \<times> nat) option" where
  "labelLocation l = snd (snd (snd l))"

text \<open>
  \<open>blockAt ast p P\<close>: in document order the node \<open>P\<close> with identity \<open>p\<close> is followed by
  its subtree, and assigning new children to it changes that stretch of the order only.
\<close>

definition blockAt :: "ast \<Rightarrow> nat \<Rightarrow> node \<Rightarrow> bool" where
  "blockAt ast p P =
     (\<exists>A B. labels ast = A @ label P # labels (childNodes P) @ B \<and>
        (\<forall>f. labels (map (updNode p f) ast) = A @ label P # labels (f (childNodes P)) @ B))"

text \<open>
  \<open>insertedLabel ast ast' l\<close>: the document order of \<open>ast'\<close> is the document order of \<open>ast\<close>
  with one more node, labelled \<open>l\<close>.
\<close>

definition insertedLabel :: "ast \<Rightarrow> ast \<Rightarrow> nodeLabel \<Rightarrow> bool" where
  "insertedLabel ast ast' l = (\<exists>X Y. labels ast = X @ Y \<and> labels ast' = X @ l # Y)"

text \<open>\<open>precedes xs a b\<close>: in the list \<open>xs\<close>, an occurrence of \<open>a\<close> comes before one of \<open>b\<close>.\<close>

definition precedes :: "'a list \<Rightarrow> 'a \<Rightarrow> 'a \<Rightarrow> bool" where
  "precedes xs a b = (\<exists>X Y. xs = X @ a # Y \<and> b \<in> set Y)"

text \<open>Positions recorded on the nodes of a tree, in document order.\<close>

definition positions :: "nodeLabel list \<Rightarrow> (nat \<times> nat) list" where
  "positions ls = concat (map (\<lambda>l. case labelLocation l of None \<Rightarrow> [] | Some p \<Rightarrow> [p]) ls)"

text \<open>
  A parsed tree is in source order: the recorded positions increase along the document order.
\<close>

definition sourceOrdered :: "ast \<Rightarrow> bool" where
  "sourceOrdered ast = sorted_wrt positionBefore (positions (labels ast))"

text \<open>The anchors found for a list of existing imports.\<close>

definition anchorsIn :: "Document \<Rightarrow> ast \<Rightarrow> url \<Rightarrow> Import list \<Rightarrow> node list" where
  "anchorsIn document ast u es =
     concat (map (\<lambda>e. case anchorOf document ast u e of None \<Rightarrow> [] | Some n \<Rightarrow> [n]) es)"

text \<open>
  A tree with its next unused identity is well formed when the identities of its nodes are
  distinct and all used.
\<close>

definition wfDom :: "ast \<times> nat \<Rightarrow> bool" where
  "wfDom st = (distinct (ids (fst st)) \<and> (\<forall>i \<in> set (ids (fst st)). i < snd st))"

text \<open>
  \<open>grows ast ast'\<close>: \<open>ast'\<close> comes from \<open>ast\<close> by inserting nodes that have new identities and
  no recorded position.
\<close>

definition insertedFresh :: "ast \<Rightarrow> ast \<Rightarrow> bool" where
  "insertedFresh ast ast' =
     (\<exists>l. insertedLabel ast ast' l \<and> fst l \<notin> set (ids ast) \<and> labelLocation l = None)"

definition grows :: "ast \<Rightarrow> ast \<Rightarrow> bool" where
  "grows = insertedFresh\<^sup>*\<^sup>*"

text \<open>\<open>isElement\<close> and \<open>sameNode\<close> read off a label.\<close>

definition labelIsElement :: "nodeLabel \<Rightarrow> bool" where
  "labelIsElement l = (case fst (snd l) of [] \<Rightarrow> False | c # cs \<Rightarrow> c \<noteq> CHR ''#'')"

definition labelSameNode :: "node \<Rightarrow> nodeLabel \<Rightarrow> bool" where
  "labelSameNode a l =
     (fst (snd l) = nodeName a \<and> labelLocation l \<noteq> None \<and> labelLocation l = location a)"

text \<open>
  An in-place bundle document after preparation: a hidden container that holds the import link
  of \<open>m.html\<close>, and the analysis of the document, in which \<open>m.html\<close> eagerly imports \<open>u.html\<close>.
\<close>

definition exampleMatchers :: matchers where
  "exampleMatchers =
     \<lparr>body = (\<lambda>n a. n = ''body''),
      eagerHtmlImport = (\<lambda>n a. n = ''link'' \<and> (''rel'', ''import'') \<in> set a),
      head = (\<lambda>n a. n = ''head''),
      hiddenDiv = (\<lambda>n a. n = ''div'' \<and> ''hidden'' \<in> fst ` set a \<and>
                     ''by-polymer-bundler'' \<in> fst ` set a),
      htmlImport = (\<lambda>n a. n = ''link'' \<and> (''rel'', ''import'') \<in> set a),
      orderedImperative = (\<lambda>n a. n = ''link'' \<and> (''rel'', ''import'') \<in> set a \<or>
                             n = ''script'' \<or> n = ''style'')\<rparr>"

definition exampleImportNode :: node where
  "exampleImportNode =
     Node 2 ''link'' [(''rel'', ''import''), (''href'', ''m.html'')] (Some (1, 34)) []"

definition exampleAst :: ast where
  "exampleAst =
     [Node 1 ''div'' [(''hidden'', ''''), (''by-polymer-bundler'', '''')] (Some (1, 1))
        [exampleImportNode]]"

definition exampleDocument :: Document where
  "exampleDocument =
     \<lparr>url = ''entry.html'',
      htmlImportFeatures =
        [\<lparr>lazy = False, documentUrl = ''m.html'', astNode = exampleImportNode,
          importedFeatures = [(False, ''u.html'')]\<rparr>],
      parsedDocument = (exampleAst, 3)\<rparr>"

section \<open>Import inlining (\<open>_inlineHtmlImports\<close>)\<close>










section \<open>Preparing the base document (\<open>_prepareBundleDocument\<close>)\<close>















text \<open>
  The identities of the elements of a tree that a matcher \<open>E\<close> accepts and that are not inside a
  hidden container.
\<close>

fun unhiddenImports :: "matcher \<Rightarrow> matchers \<Rightarrow> node \<Rightarrow> nat list" where
  "unhiddenImports E M (Node i n a l cs) =
     (if isElement (Node i n a l cs) \<and> E n a then [i] else []) @
     (if hiddenDiv M n a then [] else concat (map (unhiddenImports E M) cs))"

definition unhiddenIn :: "matcher \<Rightarrow> matchers \<Rightarrow> ast \<Rightarrow> nat list" where
  "unhiddenIn E M ast = concat (map (unhiddenImports E M) ast)"










section \<open>Properties of the exclusion filter\<close>

lemma set_delete_filter_commute:
  "set_delete x (filter P xs) = filter P (set_delete x xs)"
  by (induction xs) (auto simp: set_delete_def)

lemma deleteFolderFiles_foldl:
  "foldl (\<lambda>cur file. if startsWith file p then set_delete file cur else cur) cur fs =
   filter (\<lambda>f. \<not> (f \<in> set fs \<and> startsWith f p)) cur"
proof (induction fs arbitrary: cur)
  case Nil
  show ?case by simp
next
  case (Cons a fs)
  have "filter (\<lambda>f. \<not> (f \<in> set fs \<and> startsWith f p)) (set_delete a cur) =
        filter (\<lambda>f. \<not> (f \<in> set (a # fs) \<and> startsWith f p)) cur" if "startsWith a p"
    using that by (induction cur) (auto simp: set_delete_def)
  moreover have "filter (\<lambda>f. \<not> (f \<in> set fs \<and> startsWith f p)) cur =
        filter (\<lambda>f. \<not> (f \<in> set (a # fs) \<and> startsWith f p)) cur" if "\<not> startsWith a p"
    using that by (induction cur) auto
  ultimately show ?case using Cons.IH by simp
qed

lemma deleteFolderFiles_filter:
  "deleteFolderFiles p fs = filter (\<lambda>f. \<not> startsWith f p) fs"
  unfolding deleteFolderFiles_def deleteFolderFiles_foldl
  by (rule filter_cong) auto

lemma excludeFromBundle_files:
  "excludeFromBundle b e =
     b\<lparr>files := filter (\<lambda>f. f \<noteq> e \<and> \<not> startsWith f (excludeAsFolder e)) (files b)\<rparr>"
  by (simp add: excludeFromBundle_def Let_def deleteFolderFiles_filter set_delete_def conj_commute)

lemma foldl_excludeFromBundle:
  "foldl excludeFromBundle b exs =
     b\<lparr>files := filter (\<lambda>f. \<forall>e\<in>set exs. f \<noteq> e \<and> \<not> startsWith f (excludeAsFolder e))
                 (files b)\<rparr>"
proof (induction exs arbitrary: b)
  case Nil
  show ?case by simp
next
  case (Cons e es)
  have "filter (\<lambda>f. \<forall>x\<in>set es. f \<noteq> x \<and> \<not> startsWith f (excludeAsFolder x))
          (filter (\<lambda>f. f \<noteq> e \<and> \<not> startsWith f (excludeAsFolder e)) fs) =
        filter (\<lambda>f. \<forall>x\<in>set (e # es). f \<noteq> x \<and> \<not> startsWith f (excludeAsFolder x)) fs" for fs
    by (induction fs) auto
  note flt = this
  have "foldl excludeFromBundle b (e # es) = foldl excludeFromBundle (excludeFromBundle b e) es"
    by simp
  also have "\<dots> = (excludeFromBundle b e)\<lparr>files :=
      filter (\<lambda>f. \<forall>x\<in>set es. f \<noteq> x \<and> \<not> startsWith f (excludeAsFolder x))
        (files (excludeFromBundle b e))\<rparr>"
    by (rule Cons.IH)
  also have "\<dots> = b\<lparr>files :=
      filter (\<lambda>f. \<forall>x\<in>set (e # es). f \<noteq> x \<and> \<not> startsWith f (excludeAsFolder x)) (files b)\<rparr>"
    unfolding excludeFromBundle_files using flt [of "files b"] by simp
  finally show ?case .
qed

lemma removeEmptyBundles_id: "removeEmptyBundles b bundles = bundles"
proof (induction b bundles rule: removeEmptyBundles.induct)
  case (1 b bundles)
  have "\<not> set_size (files (bundles ! b)) < 0" by (simp add: set_size_def)
  with 1 show ?case by (subst removeEmptyBundles.simps) auto
qed

text \<open>
  C3. For every bundle and every excludes list, the exclusion filter leaves in the bundle's
  \<open>files\<close> exactly the members that are no entry \<open>e\<close> of the excludes and do not start with
  \<open>e\<close> read as a folder (\<open>e\<close> itself when it ends in \<open>/\<close>, otherwise \<open>e + '/'\<close>); the order
  of the remaining members, the other fields and the list of bundles are as before.
\<close>

theorem filterExcludes_removes_url_and_folder:
  "filterExcludesFromBundles exs bundles =
     map (\<lambda>b. b\<lparr>files :=
            filter (\<lambda>f. \<forall>e\<in>set exs. f \<noteq> e \<and>
                      \<not> startsWith f (if endsWith e ''/'' then e else e @ ''/''))
              (files b)\<rparr>) bundles"
  unfolding filterExcludesFromBundles_def removeEmptyBundles_id foldl_excludeFromBundle
  by (simp add: excludeAsFolder_def)

text \<open>
  The instance of C3 the specification names: excluding \<open>a/\<close> removes \<open>a/b.html\<close> and
  \<open>a/b/c.html\<close> and keeps \<open>ab.html\<close>.
\<close>

theorem filterExcludes_removes_url_and_folder_witness:
  "filterExcludesFromBundles [''a/'']
     [\<lparr>entrypoints = [''e.html''], files = [''a/b.html'', ''a/b/c.html'', ''ab.html''],
       stripImports = []\<rparr>] =
     [\<lparr>entrypoints = [''e.html''], files = [''ab.html''], stripImports = []\<rparr>]"
  using filterExcludes_removes_url_and_folder [of "[''a/'']"
      "[\<lparr>entrypoints = [''e.html''], files = [''a/b.html'', ''a/b/c.html'', ''ab.html''],
         stripImports = []\<rparr>]"]
  by (simp add: startsWith_def endsWith_def)

text \<open>
  C2. The filter is meant to drop every bundle whose \<open>files\<close> the removals left empty. On the
  single bundle \<open>{a.html}\<close> with \<open>a.html\<close> excluded, the bundle is emptied and stays in the
  collection: the test \<open>files.size < 0\<close> of the pruning loop never holds.
\<close>

theorem filterExcludes_keeps_emptied_bundle:
  "filterExcludesFromBundles [''a.html'']
     [\<lparr>entrypoints = [''a.html''], files = [''a.html''], stripImports = []\<rparr>] =
     [\<lparr>entrypoints = [''a.html''], files = [], stripImports = []\<rparr>]"
  by code_simp

section \<open>Properties of the constructor and of the pipeline\<close>

lemma countingUrls_prefix:
  "(u, b) \<in> set (countingUrls urlPrefix counter bs) \<Longrightarrow> length (entrypoints b) \<noteq> 1 \<Longrightarrow>
   startsWith u urlPrefix"
proof (induction bs arbitrary: counter)
  case Nil
  then show ?case by simp
next
  case (Cons a bs)
  show ?case
  proof (cases "\<exists>e. entrypoints a = [e]")
    case True
    then obtain e where e: "entrypoints a = [e]" by blast
    with Cons.prems have "(u, b) \<in> set (countingUrls urlPrefix counter bs)" by auto
    then show ?thesis using Cons.IH Cons.prems(2) by blast
  next
    case False
    then have step: "countingUrls urlPrefix counter (a # bs) =
        (urlPrefix @ decimal (Suc counter), a) # countingUrls urlPrefix (Suc counter) bs"
      by (cases "entrypoints a"; cases "tl (entrypoints a)") auto
    from Cons.prems(1) [unfolded step]
    consider "u = urlPrefix @ decimal (Suc counter)"
      | "(u, b) \<in> set (countingUrls urlPrefix (Suc counter) bs)" by auto
    then show ?thesis
    proof cases
      case 1
      then show ?thesis by (simp add: startsWith_def)
    next
      case 2
      then show ?thesis using Cons.IH Cons.prems(2) by blast
    qed
  qed
qed

text \<open>
  C9. When the options do not supply \<open>inlineCss\<close>, the constructed \<open>Bundler\<close> has stylesheet
  inlining enabled and the pipeline of every bundle of a manifest runs both stylesheet
  inlining steps; when they do not supply \<open>inlineScripts\<close>, script inlining is enabled and the
  pipeline of every bundle runs the script inlining step.
\<close>

theorem constructor_inlining_defaults:
  "(opt_inlineCss (constructor_opts options) = None \<longrightarrow>
      enableCssInlining (constructor options) \<and>
      (\<forall>entry \<in> set (bundle_steps (constructor options) manifest_bundles).
         InlineStylesheetLinks \<in> set (snd entry) \<and> InlineStylesheetImports \<in> set (snd entry))) \<and>
   (opt_inlineScripts (constructor_opts options) = None \<longrightarrow>
      enableScriptInlining (constructor options) \<and>
      (\<forall>entry \<in> set (bundle_steps (constructor options) manifest_bundles).
         InlineScripts \<in> set (snd entry)))"
  by (auto simp: constructor_def Let_def bundle_steps_def bundleDocument_steps_def)

theorem constructor_inlining_defaults_witness:
  "enableCssInlining (constructor None) \<and> enableScriptInlining (constructor None) \<and>
   bundle_steps (constructor (Some emptyOptions))
     [(''a.html'', \<lparr>entrypoints = [''a.html''], files = [''a.html''], stripImports = []\<rparr>)] =
     [(''a.html'', [PrepareBundleDocument, InjectHtmlImportsForBundle, RewriteAstToEmulateBaseTag,
        AnalyzeContents, InlineHtmlImports, InlineScripts, InlineStylesheetLinks,
        InlineStylesheetImports, RemoveEmptyHiddenDivs])]"
  using constructor_inlining_defaults [of None "[]"]
  by (simp add: constructor_opts_def emptyOptions_def constructor_def Let_def bundle_steps_def
      bundleDocument_steps_def Boolean_def)

text \<open>
  C10. When the options do not supply \<open>strategy\<close>, the strategy of the constructed \<open>Bundler\<close>
  is the shared-dependencies merge strategy; when they do not supply \<open>urlMapper\<close>, its URL
  mapper is the counting shared-bundle mapper with the prefix \<open>shared_bundle_\<close>, and every URL
  it gives to a bundle that is not owned by a single entrypoint starts with that prefix;
  when \<open>excludes\<close> is not an array, the excludes list is empty.
\<close>

theorem constructor_strategy_mapper_excludes_defaults:
  "(opt_strategy (constructor_opts options) = None \<longrightarrow>
      strategy (constructor options) = generateSharedDepsMergeStrategy) \<and>
   (opt_urlMapper (constructor_opts options) = None \<longrightarrow>
      urlMapper (constructor options) = generateCountingSharedBundleUrlMapper ''shared_bundle_'' \<and>
      (\<forall>entry \<in> set (urlMapper (constructor options) bundles).
         length (entrypoints (snd entry)) \<noteq> 1 \<longrightarrow> startsWith (fst entry) ''shared_bundle_'')) \<and>
   ((\<forall>xs. opt_excludes (constructor_opts options) \<noteq> JsArray xs) \<longrightarrow>
      excludes (constructor options) = [])"
proof (intro conjI impI)
  assume "opt_strategy (constructor_opts options) = None"
  then show "strategy (constructor options) = generateSharedDepsMergeStrategy"
    by (simp add: constructor_def Let_def)
next
  assume "opt_urlMapper (constructor_opts options) = None"
  then show m: "urlMapper (constructor options) =
      generateCountingSharedBundleUrlMapper ''shared_bundle_''"
    by (simp add: constructor_def Let_def)
  show "\<forall>entry \<in> set (urlMapper (constructor options) bundles).
      length (entrypoints (snd entry)) \<noteq> 1 \<longrightarrow> startsWith (fst entry) ''shared_bundle_''"
    unfolding m generateCountingSharedBundleUrlMapper_def
    using countingUrls_prefix [of _ _ "''shared_bundle_''" 0 bundles] by auto
next
  assume "\<forall>xs. opt_excludes (constructor_opts options) \<noteq> JsArray xs"
  then show "excludes (constructor options) = []"
    by (cases "opt_excludes (constructor_opts options)") (simp_all add: constructor_def Let_def)
qed

theorem constructor_strategy_mapper_excludes_defaults_witness:
  "strategy (constructor None) = generateSharedDepsMergeStrategy \<and>
   urlMapper (constructor None) = generateCountingSharedBundleUrlMapper ''shared_bundle_'' \<and>
   startsWith (fst (hd (urlMapper (constructor None)
     [\<lparr>entrypoints = [''a.html'', ''b.html''], files = [''c.html''], stripImports = []\<rparr>])))
     ''shared_bundle_'' \<and>
   excludes (constructor None) = [] \<and>
   excludes (constructor (Some (emptyOptions\<lparr>opt_excludes := JsString ''a.html''\<rparr>))) = []"
  using constructor_strategy_mapper_excludes_defaults [of None
      "[\<lparr>entrypoints = [''a.html'', ''b.html''], files = [''c.html''], stripImports = []\<rparr>]"]
    constructor_strategy_mapper_excludes_defaults [of
      "Some (emptyOptions\<lparr>opt_excludes := JsString ''a.html''\<rparr>)" "[]"]
  by (simp add: constructor_opts_def emptyOptions_def generateCountingSharedBundleUrlMapper_def
      startsWith_def)

section \<open>Properties of the dependency index\<close>

lemma walkEager_grows:
  "walkEager g todo visited lazies = (v, l) \<Longrightarrow> set visited \<union> set todo \<subseteq> set v"
proof (induction g todo visited lazies rule: walkEager.induct)
  case (1 g visited lazies)
  then show ?case by auto
next
  case (2 g u todo visited lazies)
  then show ?case by (auto split: if_splits)
qed

lemma walkEager_reach:
  "walkEager g todo visited lazies = (v, l) \<Longrightarrow>
   \<forall>x \<in> set todo \<union> set visited. (e, x) \<in> (eagerEdge g)\<^sup>* \<Longrightarrow>
   \<forall>x \<in> set v. (e, x) \<in> (eagerEdge g)\<^sup>*"
proof (induction g todo visited lazies rule: walkEager.induct)
  case (1 g visited lazies)
  then show ?case by auto
next
  case (2 g u todo visited lazies)
  show ?case
  proof (cases "u \<in> set visited")
    case True
    with 2 show ?thesis by auto
  next
    case False
    have u: "(e, u) \<in> (eagerEdge g)\<^sup>*" using "2.prems"(2) by simp
    have "\<forall>x \<in> set (eagerImports g u @ todo) \<union> set (visited @ [u]). (e, x) \<in> (eagerEdge g)\<^sup>*"
    proof
      fix x assume "x \<in> set (eagerImports g u @ todo) \<union> set (visited @ [u])"
      then consider "x \<in> set (eagerImports g u)" | "x \<in> set (u # todo) \<union> set visited" by auto
      then show "(e, x) \<in> (eagerEdge g)\<^sup>*"
      proof cases
        case 1
        then have "(u, x) \<in> eagerEdge g" by (simp add: eagerEdge_def)
        with u show ?thesis by (rule rtrancl_into_rtrancl)
      next
        case 2
        then show ?thesis using "2.prems"(2) by blast
      qed
    qed
    with 2 False show ?thesis by auto
  qed
qed

lemma walkEager_collects_lazies:
  "walkEager g todo visited lazies = (v, l) \<Longrightarrow>
   set lazies \<subseteq> set l \<and> (\<forall>x \<in> set v - set visited. set (lazyImports g x) \<subseteq> set l)"
proof (induction g todo visited lazies arbitrary: v l rule: walkEager.induct)
  case (1 g visited lazies)
  then show ?case by auto
next
  case (2 g u todo visited lazies)
  show ?case
  proof (cases "u \<in> set visited")
    case True
    with 2 show ?thesis by auto
  next
    case False
    with "2.prems" have w: "walkEager g (eagerImports g u @ todo) (visited @ [u])
        (lazies @ lazyImports g u) = (v, l)" by simp
    from "2.IH"(2) [OF False w] show ?thesis by auto
  qed
qed

lemma closureOf_self: "e \<in> set (closureOf g e)"
  using walkEager_grows [of g "[e]" "[]" "[]"] unfolding closureOf_def
  by (cases "walkEager g [e] [] []") auto

lemma closureOf_reach: "x \<in> set (closureOf g e) \<Longrightarrow> (e, x) \<in> (eagerEdge g)\<^sup>*"
  using walkEager_reach [of g "[e]" "[]" "[]" _ _ e] unfolding closureOf_def
  by (cases "walkEager g [e] [] []") auto

lemma closureOf_lazies:
  "x \<in> set (closureOf g e) \<Longrightarrow> set (lazyImports g x) \<subseteq> set (snd (walkEager g [e] [] []))"
  using walkEager_collects_lazies [of g "[e]" "[]" "[]"] unfolding closureOf_def
  by (cases "walkEager g [e] [] []") auto

lemma buildLoop_inv:
  "indexInv g queue index \<Longrightarrow> indexInv g [] (buildLoop g queue index)"
proof (induction g queue index rule: buildLoop.induct)
  case (1 g index)
  then show ?case by simp
next
  case (2 g e queue index)
  show ?case
  proof (cases "hasEntry index e")
    case True
    have "indexInv g queue index"
      using "2.prems" True unfolding indexInv_def by auto
    with 2 True show ?thesis by simp
  next
    case False
    define walked where "walked = walkEager g [e] [] []"
    define index' where "index' = index @ [(e, fst walked)]"
    have "indexInv g (queue @ filter (\<lambda>l. \<not> hasEntry index' l) (snd walked)) index'"
      using "2.prems" False unfolding indexInv_def index'_def walked_def hasEntry_def closureOf_def
      by (auto 0 3)
    from "2.IH"(2) [OF False walked_def index'_def this] False
    show ?thesis by (simp add: Let_def walked_def index'_def)
  qed
qed

lemma buildDepsIndex_inv: "indexInv g [] (buildDepsIndex g es)"
  unfolding buildDepsIndex_def by (rule buildLoop_inv) (simp add: indexInv_def)

lemma threeEndpoints_index:
  "buildDepsIndex threeEndpointsFixture [''common.html'', ''endpoint1.html'', ''endpoint2.html''] =
     [(''common.html'', [''common.html'']),
      (''endpoint1.html'', [''endpoint1.html'', ''common.html'', ''dep1.html'']),
      (''endpoint2.html'',
         [''endpoint2.html'', ''common.html'', ''dep2.html'', ''endpoint1.html'', ''dep1.html''])]"
  by code_simp

lemma lazyImports_index:
  "buildDepsIndex lazyImportsFixture [''lazy-imports.html''] =
     [(''lazy-imports.html'',
         [''lazy-imports.html'', ''lazy-imports/shared-eager-and-lazy-import-1.html'']),
      (''lazy-imports/lazy-import-1.html'',
         [''lazy-imports/lazy-import-1.html'', ''lazy-imports/shared-eager-import-1.html'',
          ''lazy-imports/shared-eager-import-2.html'']),
      (''lazy-imports/lazy-import-2.html'',
         [''lazy-imports/lazy-import-2.html'', ''lazy-imports/shared-eager-import-1.html'',
          ''lazy-imports/shared-eager-import-2.html'',
          ''lazy-imports/shared-eager-and-lazy-import-1.html'',
          ''lazy-imports/subfolder/eager-import-1.html'',
          ''lazy-imports/subfolder/eager-import-2.html'']),
      (''lazy-imports/subfolder/lazy-import-3.html'',
         [''lazy-imports/subfolder/lazy-import-3.html'']),
      (''lazy-imports/shared-eager-and-lazy-import-1.html'',
         [''lazy-imports/shared-eager-and-lazy-import-1.html'']),
      (''lazy-imports/deeply-lazy-import-1.html'',
         [''lazy-imports/deeply-lazy-import-1.html'',
          ''lazy-imports/deeply-lazy-imports-eager-import-1.html''])]"
  by code_simp

lemma lazyImportsFixture_eager_reach:
  "(''lazy-imports.html'', x) \<in> (eagerEdge lazyImportsFixture)\<^sup>* \<Longrightarrow>
   x \<in> {''lazy-imports.html'', ''lazy-imports/shared-eager-and-lazy-import-1.html''}"
proof (induction rule: rtrancl_induct)
  case base
  show ?case by simp
next
  case (step y z)
  from step.hyps(2) have z: "z \<in> set (eagerImports lazyImportsFixture y)"
    by (simp add: eagerEdge_def)
  from step.IH consider "y = ''lazy-imports.html''"
    | "y = ''lazy-imports/shared-eager-and-lazy-import-1.html''" by auto
  then show ?case
  proof cases
    case 1
    with z show ?thesis by (simp add: eagerImports_def featuresOf_def lazyImportsFixture_def)
  next
    case 2
    with z show ?thesis by (simp add: eagerImports_def featuresOf_def lazyImportsFixture_def)
  qed
qed

text \<open>
  C5. In the index the builder returns, the closure mapped to an entrypoint contains the
  entrypoint itself.
\<close>

theorem closure_contains_entrypoint:
  "map_of (buildDepsIndex g es) e = Some deps \<Longrightarrow> e \<in> set deps"
proof -
  assume m: "map_of (buildDepsIndex g es) e = Some deps"
  then have "(e, deps) \<in> set (buildDepsIndex g es)" by (rule map_of_SomeD)
  with buildDepsIndex_inv [of g es] have "deps = closureOf g e" unfolding indexInv_def by auto
  then show ?thesis by (simp add: closureOf_self)
qed

theorem closure_contains_entrypoint_witness:
  "map_of (buildDepsIndex threeEndpointsFixture
      [''common.html'', ''endpoint1.html'', ''endpoint2.html'']) ''endpoint1.html'' =
     Some [''endpoint1.html'', ''common.html'', ''dep1.html''] \<and>
   ''endpoint1.html'' \<in> set [''endpoint1.html'', ''common.html'', ''dep1.html'']"
proof -
  have m: "map_of (buildDepsIndex threeEndpointsFixture
      [''common.html'', ''endpoint1.html'', ''endpoint2.html'']) ''endpoint1.html'' =
     Some [''endpoint1.html'', ''common.html'', ''dep1.html'']"
    unfolding threeEndpoints_index by simp
  from m closure_contains_entrypoint [OF m] show ?thesis by (rule conjI)
qed

text \<open>
  C6. In the index the builder returns, the closure of an entrypoint \<open>E\<close> holds no document that
  cannot be reached from \<open>E\<close> along eager imports alone; every lazy import target \<open>D\<close> of a
  document of that closure is an entrypoint of the index, and its closure contains \<open>D\<close> and only
  documents reachable from \<open>D\<close> along eager imports. In the lazy-import scenario the closure of
  \<open>lazy-imports.html\<close> is itself and \<open>shared-eager-and-lazy-import-1.html\<close>.
\<close>

theorem lazy_import_is_own_entrypoint:
  "(map_of (buildDepsIndex g es) E = Some deps \<longrightarrow>
      (\<forall>D. (E, D) \<notin> (eagerEdge g)\<^sup>* \<longrightarrow> D \<notin> set deps) \<and>
      (\<forall>X \<in> set deps. \<forall>D \<in> set (lazyImports g X).
         \<exists>depsD. map_of (buildDepsIndex g es) D = Some depsD \<and> D \<in> set depsD \<and>
           (\<forall>y \<in> set depsD. (D, y) \<in> (eagerEdge g)\<^sup>*))) \<and>
   map_of (buildDepsIndex lazyImportsFixture [''lazy-imports.html'']) ''lazy-imports.html'' =
     Some [''lazy-imports.html'', ''lazy-imports/shared-eager-and-lazy-import-1.html'']"
proof (intro conjI impI)
  assume m: "map_of (buildDepsIndex g es) E = Some deps"
  note inv = buildDepsIndex_inv [of g es]
  from m have mem: "(E, deps) \<in> set (buildDepsIndex g es)" by (rule map_of_SomeD)
  with inv have deps: "deps = closureOf g E"
    and lz: "\<forall>l \<in> set (snd (walkEager g [E] [] [])). hasEntry (buildDepsIndex g es) l"
    unfolding indexInv_def by auto
  show "\<forall>D. (E, D) \<notin> (eagerEdge g)\<^sup>* \<longrightarrow> D \<notin> set deps"
    using closureOf_reach deps by blast
  show "\<forall>X \<in> set deps. \<forall>D \<in> set (lazyImports g X).
         \<exists>depsD. map_of (buildDepsIndex g es) D = Some depsD \<and> D \<in> set depsD \<and>
           (\<forall>y \<in> set depsD. (D, y) \<in> (eagerEdge g)\<^sup>*)"
  proof (intro ballI)
    fix X D assume X: "X \<in> set deps" and D: "D \<in> set (lazyImports g X)"
    from X D deps have "D \<in> set (snd (walkEager g [E] [] []))"
      using closureOf_lazies by blast
    with lz have "hasEntry (buildDepsIndex g es) D" by blast
    then obtain depsD where dm: "(D, depsD) \<in> set (buildDepsIndex g es)"
      unfolding hasEntry_def by auto
    with inv have dd: "depsD = closureOf g D" unfolding indexInv_def by auto
    from inv have "distinct (map fst (buildDepsIndex g es))" unfolding indexInv_def by simp
    with dm have "map_of (buildDepsIndex g es) D = Some depsD" by simp
    then show "\<exists>depsD. map_of (buildDepsIndex g es) D = Some depsD \<and> D \<in> set depsD \<and>
           (\<forall>y \<in> set depsD. (D, y) \<in> (eagerEdge g)\<^sup>*)"
      using dd closureOf_self closureOf_reach by blast
  qed
next
  show "map_of (buildDepsIndex lazyImportsFixture [''lazy-imports.html'']) ''lazy-imports.html'' =
     Some [''lazy-imports.html'', ''lazy-imports/shared-eager-and-lazy-import-1.html'']"
    unfolding lazyImports_index by simp
qed

theorem lazy_import_is_own_entrypoint_witness:
  "map_of (buildDepsIndex lazyImportsFixture [''lazy-imports.html'']) ''lazy-imports.html'' =
     Some [''lazy-imports.html'', ''lazy-imports/shared-eager-and-lazy-import-1.html''] \<and>
   (''lazy-imports.html'', ''lazy-imports/lazy-import-1.html'') \<notin> (eagerEdge lazyImportsFixture)\<^sup>* \<and>
   ''lazy-imports/lazy-import-1.html'' \<in> set (lazyImports lazyImportsFixture ''lazy-imports.html'') \<and>
   ''lazy-imports/lazy-import-1.html'' \<notin>
     set [''lazy-imports.html'', ''lazy-imports/shared-eager-and-lazy-import-1.html''] \<and>
   (\<exists>depsD. map_of (buildDepsIndex lazyImportsFixture [''lazy-imports.html''])
       ''lazy-imports/lazy-import-1.html'' = Some depsD \<and>
     ''lazy-imports/lazy-import-1.html'' \<in> set depsD \<and>
     (\<forall>y \<in> set depsD. (''lazy-imports/lazy-import-1.html'', y) \<in> (eagerEdge lazyImportsFixture)\<^sup>*))"
proof -
  let ?E = "''lazy-imports.html''"
  let ?D = "''lazy-imports/lazy-import-1.html''"
  let ?deps = "[''lazy-imports.html'', ''lazy-imports/shared-eager-and-lazy-import-1.html'']"
  have m: "map_of (buildDepsIndex lazyImportsFixture [?E]) ?E = Some ?deps"
    unfolding lazyImports_index by simp
  have nr: "(?E, ?D) \<notin> (eagerEdge lazyImportsFixture)\<^sup>*"
    using lazyImportsFixture_eager_reach [of ?D] by auto
  have lz: "?D \<in> set (lazyImports lazyImportsFixture ?E)"
    by (simp add: lazyImports_def featuresOf_def lazyImportsFixture_def)
  have E: "?E \<in> set ?deps" by simp
  note t = lazy_import_is_own_entrypoint [of lazyImportsFixture "[?E]" ?E ?deps, THEN conjunct1,
      rule_format, OF m]
  from t [THEN conjunct1, rule_format, OF nr] have a: "?D \<notin> set ?deps" .
  from t [THEN conjunct2, rule_format, OF E lz] m nr lz a show ?thesis by blast
qed

section \<open>Properties of \<open>bundle\<close> on the store\<close>

lemma forkBundles_props:
  "forkBundles s entries = (s', entries') \<Longrightarrow>
   nextFree s \<le> nextFree s' \<and>
   manifestAt s' = manifestAt s \<and>
   (\<forall>a < nextFree s. bundleAt s' a = bundleAt s a) \<and>
   map fst entries' = map fst entries \<and>
   (\<forall>a \<in> snd ` set entries'. nextFree s \<le> a \<and> a < nextFree s')"
proof (induction entries arbitrary: s s' entries')
  case Nil
  then show ?case by auto
next
  case (Cons e entries)
  obtain u b where e: "e = (u, b)" by (cases e)
  define s1 where "s1 = s\<lparr>bundleAt := (bundleAt s)(nextFree s := bundleAt s b),
    nextFree := Suc (nextFree s)\<rparr>"
  obtain s2 es2 where r: "forkBundles s1 entries = (s2, es2)" by (cases "forkBundles s1 entries")
  from Cons.prems e r have s': "s' = s2" and es': "entries' = (u, nextFree s) # es2"
    by (simp_all add: Let_def s1_def)
  note IH = Cons.IH [OF r]
  have n1: "nextFree s1 = Suc (nextFree s)" and m1: "manifestAt s1 = manifestAt s"
    and b1: "\<forall>a < nextFree s. bundleAt s1 a = bundleAt s a"
    by (simp_all add: s1_def)
  show ?case
    unfolding s' es' using IH n1 m1 b1 e by (auto simp: less_Suc_eq_le)
qed

lemma bundleLoop_frame:
  "writesOnlyGiven bundleDocument \<Longrightarrow>
   bundleLoop bundleDocument manifest_bundles entries h documents = (h', documents') \<Longrightarrow>
   a \<notin> snd ` set manifest_bundles \<Longrightarrow> h' a = h a"
proof (induction entries arbitrary: h documents)
  case Nil
  then show ?case by simp
next
  case (Cons e entries)
  obtain u b where e: "e = (u, b)" by (cases e)
  define h1 where "h1 = fst (bundleDocument u b manifest_bundles h)"
  from Cons.prems(1,3) have "h1 a = h a"
    unfolding writesOnlyGiven_def h1_def by blast
  moreover from Cons.prems(2) e obtain d where
    "bundleLoop bundleDocument manifest_bundles entries h1 d = (h', documents')"
    by (simp add: Let_def h1_def)
  ultimately show ?case using Cons.IH Cons.prems(1,3) by metis
qed

lemma bundleLoop_documents:
  "bundleLoop bundleDocument manifest_bundles entries h documents = (h', documents') \<Longrightarrow>
   map fst documents' = map fst documents @ map fst entries"
proof (induction entries arbitrary: h documents)
  case Nil
  then show ?case by simp
next
  case (Cons e entries)
  obtain u b where e: "e = (u, b)" by (cases e)
  from Cons.prems e obtain h1 x where
    "bundleLoop bundleDocument manifest_bundles entries h1 (documents @ [(u, x)]) = (h', documents')"
    by (simp add: Let_def)
  from Cons.IH [OF this] e show ?case by simp
qed

lemma exampleProduction_frame: "writesOnlyGiven exampleProduction"
  unfolding writesOnlyGiven_def exampleProduction_def by auto

lemma exampleStore_bundle:
  "\<exists>s'. Bundler_bundle exampleProduction exampleStore 1 =
       Some (s', 3, [(''a.html'', (), [''a.html'', ''inlined.html''])]) \<and>
     bundleAt s' 2 = Some \<lparr>entrypoints = [''a.html''], files = [''a.html'', ''inlined.html''],
       stripImports = []\<rparr>"
  by (simp add: Bundler_bundle_def fork_def exampleStore_def Let_def exampleProduction_def)

text \<open>
  C7. For a manifest whose objects are allocated in the store and a production step that writes
  only to the bundles of the manifest it is given, \<open>bundle\<close> returns; the manifest of its
  result is a newly allocated object, not the caller's, over the same output URLs and over
  bundle objects none of which is a bundle object of the caller's manifest; and after the call
  the caller's manifest and every bundle object of it are as before.
\<close>

theorem bundle_works_on_fork:
  assumes given: "manifestAt s manifest = Some entries"
    and alloc: "manifest < nextFree s" "\<forall>b \<in> snd ` set entries. b < nextFree s"
    and frame: "writesOnlyGiven bundleDocument"
  shows "\<exists>s' forked documents forkedEntries.
      Bundler_bundle bundleDocument s manifest = Some (s', forked, documents) \<and>
      forked \<noteq> manifest \<and>
      manifestAt s' manifest = Some entries \<and>
      (\<forall>b \<in> snd ` set entries. bundleAt s' b = bundleAt s b) \<and>
      manifestAt s' forked = Some forkedEntries \<and>
      map fst forkedEntries = map fst entries \<and>
      snd ` set forkedEntries \<inter> snd ` set entries = {} \<and>
      map fst documents = map fst entries"
proof -
  obtain s1 forkedEntries where fb: "forkBundles s entries = (s1, forkedEntries)"
    by (cases "forkBundles s entries")
  note p = forkBundles_props [OF fb]
  define forked where "forked = nextFree s1"
  define s2 where "s2 = s1\<lparr>manifestAt := (manifestAt s1)(forked := Some forkedEntries),
    nextFree := Suc forked\<rparr>"
  have fk: "fork s manifest = Some (s2, forked)"
    using given fb by (simp add: fork_def Let_def s2_def forked_def)
  have ne: "forked \<noteq> manifest" using alloc(1) p by (simp add: forked_def)
  have m2: "manifestAt s2 forked = Some forkedEntries" by (simp add: s2_def)
  have m2': "manifestAt s2 manifest = Some entries"
    using ne p given by (simp add: s2_def)
  obtain h' documents where lp:
    "bundleLoop bundleDocument forkedEntries forkedEntries (bundleAt s2) [] = (h', documents)"
    by (cases "bundleLoop bundleDocument forkedEntries forkedEntries (bundleAt s2) []")
  define s' where "s' = s2\<lparr>bundleAt := h'\<rparr>"
  have res: "Bundler_bundle bundleDocument s manifest = Some (s', forked, documents)"
    using fk m2 lp by (simp add: Bundler_bundle_def Let_def s'_def)
  have disj: "snd ` set forkedEntries \<inter> snd ` set entries = {}"
  proof (rule ccontr)
    assume "snd ` set forkedEntries \<inter> snd ` set entries \<noteq> {}"
    then obtain x where x: "x \<in> snd ` set forkedEntries" "x \<in> snd ` set entries" by blast
    from p x(1) have "nextFree s \<le> x" by blast
    moreover from alloc(2) x(2) have "x < nextFree s" by blast
    ultimately show False by simp
  qed
  have keep: "bundleAt s' b = bundleAt s b" if b: "b \<in> snd ` set entries" for b
  proof -
    from b disj have "b \<notin> snd ` set forkedEntries" by blast
    from bundleLoop_frame [OF frame lp this] have "h' b = bundleAt s2 b" .
    also have "\<dots> = bundleAt s b"
    proof -
      from alloc(2) b have "b < nextFree s" by blast
      with p show ?thesis by (simp add: s2_def)
    qed
    finally show ?thesis by (simp add: s'_def)
  qed
  have docs: "map fst documents = map fst entries"
    using bundleLoop_documents [OF lp] p by simp
  have urls: "map fst forkedEntries = map fst entries" using p by simp
  have m3: "manifestAt s' manifest = Some entries" "manifestAt s' forked = Some forkedEntries"
    using m2 m2' by (simp_all add: s'_def)
  have "Bundler_bundle bundleDocument s manifest = Some (s', forked, documents) \<and>
      forked \<noteq> manifest \<and>
      manifestAt s' manifest = Some entries \<and>
      (\<forall>b \<in> snd ` set entries. bundleAt s' b = bundleAt s b) \<and>
      manifestAt s' forked = Some forkedEntries \<and>
      map fst forkedEntries = map fst entries \<and>
      snd ` set forkedEntries \<inter> snd ` set entries = {} \<and>
      map fst documents = map fst entries"
    using res ne m3 keep disj urls docs by (intro conjI ballI)
  then show ?thesis by (intro exI)
qed

theorem bundle_works_on_fork_witness:
  "manifestAt exampleStore 1 = Some [(''a.html'', 0)] \<and>
   writesOnlyGiven exampleProduction \<and>
   (\<exists>s'. Bundler_bundle exampleProduction exampleStore 1 =
       Some (s', 3, [(''a.html'', (), [''a.html'', ''inlined.html''])]) \<and>
     manifestAt s' 1 = Some [(''a.html'', 0)] \<and>
     bundleAt s' 0 = Some \<lparr>entrypoints = [''a.html''], files = [''a.html''], stripImports = []\<rparr> \<and>
     bundleAt s' 2 = Some \<lparr>entrypoints = [''a.html''], files = [''a.html'', ''inlined.html''],
       stripImports = []\<rparr>)"
proof -
  have g: "manifestAt exampleStore 1 = Some [(''a.html'', 0)]" by (simp add: exampleStore_def)
  have a: "1 < nextFree exampleStore" "\<forall>b \<in> snd ` set [(''a.html'', 0::nat)]. b < nextFree exampleStore"
    by (simp_all add: exampleStore_def)
  from bundle_works_on_fork [OF g a exampleProduction_frame]
  obtain s' forked documents where r:
    "Bundler_bundle exampleProduction exampleStore 1 = Some (s', forked, documents)"
    "manifestAt s' 1 = Some [(''a.html'', 0)]"
    "\<forall>b \<in> snd ` set [(''a.html'', 0::nat)]. bundleAt s' b = bundleAt exampleStore b"
    by blast
  from exampleStore_bundle obtain t where t:
    "Bundler_bundle exampleProduction exampleStore 1 =
       Some (t, 3, [(''a.html'', (), [''a.html'', ''inlined.html''])])"
    "bundleAt t 2 = Some \<lparr>entrypoints = [''a.html''], files = [''a.html'', ''inlined.html''],
       stripImports = []\<rparr>"
    by blast
  from r(1) t(1) have st: "t = s'" by simp
  have "bundleAt s' 0 = Some \<lparr>entrypoints = [''a.html''], files = [''a.html''], stripImports = []\<rparr>"
    using r(3) by (simp add: exampleStore_def)
  with g exampleProduction_frame r(2) t st show ?thesis by blast
qed

section \<open>Properties of document trees and of import injection\<close>

lemma docOrder_Nil [simp]: "docOrder [] = []"
  by (simp add: docOrder_def)

lemma docOrder_Cons: "docOrder (c # cs) = preorder c @ docOrder cs"
  by (simp add: docOrder_def)

lemma docOrder_append: "docOrder (xs @ ys) = docOrder xs @ docOrder ys"
  by (simp add: docOrder_def)

lemma preorder_docOrder: "preorder n = n # docOrder (childNodes n)"
  by (cases n) (simp add: docOrder_def)

lemma labels_Nil [simp]: "labels [] = []"
  by (simp add: labels_def)

lemma labels_Cons: "labels (c # cs) = label c # labels (childNodes c) @ labels cs"
  by (simp add: labels_def docOrder_Cons preorder_docOrder)

lemma labels_append: "labels (xs @ ys) = labels xs @ labels ys"
  by (simp add: labels_def docOrder_append)

lemma ids_labels: "ids ast = map fst (labels ast)"
  by (simp add: ids_def labels_def label_def)

lemma ids_Cons: "ids (c # cs) = nid c # ids (childNodes c) @ ids cs"
  by (simp add: ids_labels labels_Cons label_def)

lemma ids_append: "ids (xs @ ys) = ids xs @ ids ys"
  by (simp add: ids_labels labels_append)

lemma updNode_label [simp]: "label (updNode p f n) = label n"
  by (cases n) (simp add: label_def)

lemma updNode_nid [simp]: "nid (updNode p f n) = nid n"
  by (cases n) simp

lemma updNode_absent:
  "p \<notin> set (ids [n]) \<Longrightarrow> updNode p f n = n"
proof (induction n)
  case (Node i nm a l cs)
  have "map (updNode p f) cs = cs"
  proof (rule map_idI)
    fix c assume c: "c \<in> set cs"
    then have "set (ids [c]) \<subseteq> set (ids cs)"
      by (auto simp: ids_def docOrder_def)
    with Node.prems have "p \<notin> set (ids [c])" by (auto simp: ids_Cons)
    with Node.IH c show "updNode p f c = c" by blast
  qed
  moreover from Node.prems have "i \<noteq> p" by (auto simp: ids_Cons)
  ultimately show ?case by simp
qed

lemma updForest_absent:
  "p \<notin> set (ids cs) \<Longrightarrow> map (updNode p f) cs = cs"
proof (rule map_idI)
  fix c assume "p \<notin> set (ids cs)" and c: "c \<in> set cs"
  then have "p \<notin> set (ids [c])" by (auto simp: ids_def docOrder_def)
  then show "updNode p f c = c" by (rule updNode_absent)
qed

lemma find_append:
  "find Q (xs @ ys) = (case find Q xs of None \<Rightarrow> find Q ys | Some x \<Rightarrow> Some x)"
  by (induction xs) auto

lemma nodeAt_Cons:
  "nodeAt (c # cs) p =
     (if nid c = p then Some c
      else case nodeAt (childNodes c) p of Some x \<Rightarrow> Some x | None \<Rightarrow> nodeAt cs p)"
  by (simp add: nodeAt_def docOrder_Cons preorder_docOrder find_append split: option.splits)

lemma nodeAt_Nil [simp]: "nodeAt [] p = None"
  by (simp add: nodeAt_def)

lemma nodeAt_None: "nodeAt ast p = None \<longleftrightarrow> p \<notin> set (ids ast)"
  by (auto simp: nodeAt_def ids_def find_None_iff)

lemma nodeAt_Some_nid: "nodeAt ast p = Some P \<Longrightarrow> nid P = p"
  by (auto simp: nodeAt_def dest: find_Some_iff [THEN iffD1])

lemma blockAt_forest:
  assumes IH: "\<And>c P. c \<in> set cs \<Longrightarrow> distinct (ids [c]) \<Longrightarrow> nodeAt [c] p = Some P \<Longrightarrow> blockAt [c] p P"
  shows "distinct (ids cs) \<Longrightarrow> nodeAt cs p = Some P \<Longrightarrow> blockAt cs p P"
  using IH
proof (induction cs)
  case Nil
  then show ?case by (simp add: nodeAt_def)
next
  case (Cons c cs)
  have dc: "distinct (ids [c])" and dcs: "distinct (ids cs)"
    and disj: "set (ids [c]) \<inter> set (ids cs) = {}"
    using Cons.prems(1) ids_append [of "[c]" cs] by auto
  have split: "nodeAt (c # cs) p = (case nodeAt [c] p of Some x \<Rightarrow> Some x | None \<Rightarrow> nodeAt cs p)"
    by (simp add: nodeAt_def docOrder_Cons find_append split: option.splits)
  show ?case
  proof (cases "nodeAt [c] p")
    case None
    then have pc: "p \<notin> set (ids [c])" by (simp add: nodeAt_None)
    from None split Cons.prems(2) have "nodeAt cs p = Some P" by simp
    from Cons.IH [OF dcs this] Cons.prems(3) have "blockAt cs p P" by auto
    then obtain A B where AB: "labels cs = A @ label P # labels (childNodes P) @ B"
      "\<And>f. labels (map (updNode p f) cs) = A @ label P # labels (f (childNodes P)) @ B"
      unfolding blockAt_def by blast
    have "labels (c # cs) = (labels [c] @ A) @ label P # labels (childNodes P) @ B"
      using AB(1) labels_append [of "[c]" cs] by simp
    moreover have "labels (map (updNode p f) (c # cs)) =
        (labels [c] @ A) @ label P # labels (f (childNodes P)) @ B" for f
      using AB(2) [of f] updNode_absent [OF pc, of f] labels_append [of "[c]" "map (updNode p f) cs"]
      by simp
    ultimately show ?thesis unfolding blockAt_def by blast
  next
    case (Some Q)
    with split Cons.prems(2) have Q: "Q = P" by simp
    from Some have "p \<in> set (ids [c])" using nodeAt_None [of "[c]" p] by auto
    with disj have "p \<notin> set (ids cs)" by auto
    note rest = updForest_absent [OF this]
    from Cons.prems(3) [of c P, OF _ dc] Some Q have "blockAt [c] p P" by simp
    then obtain A B where AB: "labels [c] = A @ label P # labels (childNodes P) @ B"
      "\<And>f. labels (map (updNode p f) [c]) = A @ label P # labels (f (childNodes P)) @ B"
      unfolding blockAt_def by blast
    have "labels (c # cs) = A @ label P # labels (childNodes P) @ (B @ labels cs)"
      using AB(1) labels_append [of "[c]" cs] by simp
    moreover have "labels (map (updNode p f) (c # cs)) =
        A @ label P # labels (f (childNodes P)) @ (B @ labels cs)" for f
      using AB(2) [of f] rest [of f] labels_append [of "[updNode p f c]" cs] by simp
    ultimately show ?thesis unfolding blockAt_def by blast
  qed
qed

lemma blockAt_node:
  "distinct (ids [n]) \<Longrightarrow> nodeAt [n] p = Some P \<Longrightarrow> blockAt [n] p P"
proof (induction n arbitrary: P)
  case (Node i nm a l cs)
  show ?case
  proof (cases "i = p")
    case True
    with Node.prems(2) have P: "P = Node i nm a l cs" by (simp add: nodeAt_Cons)
    have "labels [Node i nm a l cs] = [] @ label P # labels (childNodes P) @ []"
      by (simp add: labels_Cons P)
    moreover have "labels (map (updNode p f) [Node i nm a l cs]) =
        [] @ label P # labels (f (childNodes P)) @ []" for f
      using True by (simp add: labels_Cons P label_def)
    ultimately show ?thesis unfolding blockAt_def by blast
  next
    case False
    with Node.prems(2) have at: "nodeAt cs p = Some P"
      by (simp add: nodeAt_Cons nodeAt_None split: option.splits)
    from Node.prems(1) have d: "distinct (ids cs)" by (simp add: ids_Cons)
    have "blockAt cs p P"
    proof (rule blockAt_forest [OF _ d at])
      fix c Q assume "c \<in> set cs" "distinct (ids [c])" "nodeAt [c] p = Some Q"
      then show "blockAt [c] p Q" using Node.IH by blast
    qed
    then obtain A B where AB: "labels cs = A @ label P # labels (childNodes P) @ B"
      "\<And>f. labels (map (updNode p f) cs) = A @ label P # labels (f (childNodes P)) @ B"
      unfolding blockAt_def by blast
    have "labels [Node i nm a l cs] = (label (Node i nm a l cs) # A) @ label P # labels (childNodes P) @ B"
      using AB(1) by (simp add: labels_Cons)
    moreover have "labels (map (updNode p f) [Node i nm a l cs]) =
        (label (Node i nm a l cs) # A) @ label P # labels (f (childNodes P)) @ B" for f
      using AB(2) [of f] False by (simp add: labels_Cons label_def)
    ultimately show ?thesis unfolding blockAt_def by blast
  qed
qed

lemma blockAt_ast:
  "distinct (ids ast) \<Longrightarrow> nodeAt ast p = Some P \<Longrightarrow> blockAt ast p P"
  by (rule blockAt_forest) (auto intro: blockAt_node)

lemma forest_induct [case_names Nil Cons]:
  assumes "Q []" and "\<And>c cs. Q (childNodes c) \<Longrightarrow> Q cs \<Longrightarrow> Q (c # cs)"
  shows "Q ast"
proof (induction ast rule: measure_induct_rule [where f = "size_list size"])
  case (less ast)
  show ?case
  proof (cases ast)
    case Nil
    with assms(1) show ?thesis by simp
  next
    case (Cons c cs)
    have "size_list size (childNodes c) < size_list size ast"
      unfolding Cons by (cases c) simp
    then have 1: "Q (childNodes c)" by (rule less)
    have "size_list size cs < size_list size ast"
      unfolding Cons by simp
    then have 2: "Q cs" by (rule less)
    from 1 2 show ?thesis unfolding Cons by (rule assms(2))
  qed
qed

lemma docOrder_children_closed:
  "P \<in> set (docOrder ast) \<Longrightarrow> set (docOrder (childNodes P)) \<subseteq> set (docOrder ast)"
proof (induction ast rule: forest_induct)
  case Nil
  then show ?case by simp
next
  case (Cons c cs)
  from Cons.prems consider "P = c" | "P \<in> set (docOrder (childNodes c))" | "P \<in> set (docOrder cs)"
    by (auto simp: docOrder_Cons preorder_docOrder)
  then show ?case
  proof cases
    case 1
    then show ?thesis by (auto simp: docOrder_Cons preorder_docOrder)
  next
    case 2
    with Cons.IH(1) show ?thesis by (auto simp: docOrder_Cons preorder_docOrder)
  next
    case 3
    with Cons.IH(2) show ?thesis by (auto simp: docOrder_Cons preorder_docOrder)
  qed
qed

lemma roots_in_docOrder: "set ast \<subseteq> set (docOrder ast)"
  by (induction ast) (auto simp: docOrder_Cons preorder_docOrder)

lemma child_in_docOrder:
  "P \<in> set (docOrder ast) \<Longrightarrow> c \<in> set (childNodes P) \<Longrightarrow> c \<in> set (docOrder ast)"
  using docOrder_children_closed [of P ast] roots_in_docOrder [of "childNodes P"] by blast

lemma root_or_child:
  "n \<in> set (docOrder ast) \<Longrightarrow>
   n \<in> set ast \<or> (\<exists>p \<in> set (docOrder ast). n \<in> set (childNodes p))"
proof (induction ast rule: forest_induct)
  case Nil
  then show ?case by simp
next
  case (Cons c cs)
  from Cons.prems consider "n = c" | "n \<in> set (docOrder (childNodes c))" | "n \<in> set (docOrder cs)"
    by (auto simp: docOrder_Cons preorder_docOrder)
  then show ?case
  proof cases
    case 1
    then show ?thesis by simp
  next
    case 2
    with Cons.IH(1) have "n \<in> set (childNodes c) \<or>
        (\<exists>p \<in> set (docOrder (childNodes c)). n \<in> set (childNodes p))" by simp
    then show ?thesis by (auto simp: docOrder_Cons preorder_docOrder)
  next
    case 3
    with Cons.IH(2) show ?thesis by (auto simp: docOrder_Cons preorder_docOrder)
  qed
qed

lemma distinct_ids_unique:
  "distinct (ids ast) \<Longrightarrow> x \<in> set (docOrder ast) \<Longrightarrow> y \<in> set (docOrder ast) \<Longrightarrow>
   nid x = nid y \<Longrightarrow> x = y"
  unfolding ids_def by (meson distinct_map inj_on_def)

lemma nodeAt_member:
  "distinct (ids ast) \<Longrightarrow> x \<in> set (docOrder ast) \<Longrightarrow> nodeAt ast (nid x) = Some x"
proof -
  assume d: "distinct (ids ast)" and x: "x \<in> set (docOrder ast)"
  then have "nid x \<in> set (ids ast)" by (auto simp: ids_def)
  then obtain y where y: "nodeAt ast (nid x) = Some y"
    using nodeAt_None [of ast "nid x"] by (cases "nodeAt ast (nid x)") auto
  then have "y \<in> set (docOrder ast)" "nid y = nid x"
    by (auto simp: nodeAt_def dest: find_Some_iff [THEN iffD1] simp: in_set_conv_nth)
  with d x have "y = x" by (auto dest: distinct_ids_unique)
  with y show ?thesis by simp
qed

lemma indexOf_found:
  "t \<in> nid ` set cs \<Longrightarrow> \<exists>k < length cs. indexOf t cs = int k \<and> nid (cs ! k) = t"
proof (induction cs)
  case Nil
  then show ?case by simp
next
  case (Cons c cs)
  show ?case
  proof (cases "nid c = t")
    case True
    then show ?thesis by auto
  next
    case False
    with Cons.prems have "t \<in> nid ` set cs" by auto
    from Cons.IH [OF this] obtain k where k: "k < length cs" "indexOf t cs = int k" "nid (cs ! k) = t"
      by blast
    with False have "Suc k < length (c # cs) \<and> indexOf t (c # cs) = int (Suc k) \<and>
        nid ((c # cs) ! Suc k) = t" by (simp add: Let_def)
    then show ?thesis by blast
  qed
qed

lemma spliceInsert_form:
  "\<exists>k \<le> length cs. spliceInsert index newNode cs = take k cs @ newNode # drop k cs"
proof -
  define len where "len = int (length cs)"
  define start where "start = (if index < 0 then max 0 (len + index) else min index len)"
  have "nat start \<le> length cs" unfolding start_def len_def by auto
  moreover have "spliceInsert index newNode cs = take (nat start) cs @ newNode # drop (nat start) cs"
    by (simp add: spliceInsert_def Let_def start_def len_def)
  ultimately show ?thesis by blast
qed

lemma spliceInsert_at:
  "k \<le> length cs \<Longrightarrow> spliceInsert (int k) newNode cs = take k cs @ newNode # drop k cs"
  by (simp add: spliceInsert_def Let_def min_def)

lemma labels_insert_leaf:
  "childNodes newNode = [] \<Longrightarrow>
   labels (take k cs @ newNode # drop k cs) = labels (take k cs) @ label newNode # labels (drop k cs)"
  by (simp add: labels_append labels_Cons)

lemma updateChildren_inserts:
  assumes d: "distinct (ids ast)"
    and leaf: "childNodes newNode = []"
    and f: "\<And>cs. \<exists>k \<le> length cs. f cs = take k cs @ newNode # drop k cs"
    and par: "par = DocumentRoot \<or> (\<exists>p. par = Parent p \<and> p \<in> set (ids ast))"
  shows "insertedLabel ast (updateChildren par f ast) (label newNode)"
proof (cases par)
  case DocumentRoot
  from f [of ast] obtain k where k: "f ast = take k ast @ newNode # drop k ast" by blast
  have "labels ast = labels (take k ast) @ labels (drop k ast)"
    using labels_append [of "take k ast" "drop k ast"] by simp
  moreover have "labels (f ast) = labels (take k ast) @ label newNode # labels (drop k ast)"
    unfolding k by (rule labels_insert_leaf [OF leaf])
  ultimately show ?thesis unfolding insertedLabel_def DocumentRoot by auto
next
  case (Parent p)
  with par have "p \<in> set (ids ast)" by simp
  then obtain P where P: "nodeAt ast p = Some P"
    using nodeAt_None [of ast p] by (cases "nodeAt ast p") auto
  from blockAt_ast [OF d P] obtain A B where
    AB: "labels ast = A @ label P # labels (childNodes P) @ B"
      "\<And>f. labels (map (updNode p f) ast) = A @ label P # labels (f (childNodes P)) @ B"
    unfolding blockAt_def by blast
  from f [of "childNodes P"] obtain k where
    k: "f (childNodes P) = take k (childNodes P) @ newNode # drop k (childNodes P)" by blast
  have 1: "labels (childNodes P) = labels (take k (childNodes P)) @ labels (drop k (childNodes P))"
    using labels_append [of "take k (childNodes P)" "drop k (childNodes P)"] by simp
  have 2: "labels (f (childNodes P)) =
      labels (take k (childNodes P)) @ label newNode # labels (drop k (childNodes P))"
    unfolding k by (rule labels_insert_leaf [OF leaf])
  have "labels ast = (A @ label P # labels (take k (childNodes P))) @ (labels (drop k (childNodes P)) @ B)"
    using AB(1) 1 by simp
  moreover have "labels (updateChildren par f ast) =
      (A @ label P # labels (take k (childNodes P))) @ label newNode # (labels (drop k (childNodes P)) @ B)"
    using AB(2) [of f] 2 Parent by simp
  ultimately show ?thesis unfolding insertedLabel_def by blast
qed

lemma parentNode_valid:
  "parentNode ast k = DocumentRoot \<or> (\<exists>p. parentNode ast k = Parent p \<and> p \<in> set (ids ast))"
proof (cases "find (\<lambda>p. k \<in> nid ` set (childNodes p)) (docOrder ast)")
  case None
  then show ?thesis by (simp add: parentNode_def)
next
  case (Some P)
  then have "P \<in> set (docOrder ast)"
    by (auto dest!: find_Some_iff [THEN iffD1] simp: in_set_conv_nth)
  with Some show ?thesis by (auto simp: parentNode_def ids_def)
qed

lemma labelLocation_label [simp]: "labelLocation (label n) = location n"
  by (simp add: labelLocation_def label_def)

lemma fst_label [simp]: "fst (label n) = nid n"
  by (simp add: label_def)

lemma precedes_insert:
  assumes "precedes (X @ Y) a b"
  shows "precedes (X @ l # Y) a b"
proof -
  from assms obtain P Q where pq: "X @ Y = P @ a # Q" "b \<in> set Q" unfolding precedes_def by blast
  from pq(1) consider (left) Z where "X = P @ a # Z" "Q = Z @ Y"
    | (right) Z where "P = X @ Z" "Y = Z @ a # Q"
    by (auto simp: append_eq_append_conv2 append_eq_Cons_conv Cons_eq_append_conv)
  then show ?thesis
  proof cases
    case left
    then have "X @ l # Y = P @ a # (Z @ l # Y)" by simp
    moreover from pq(2) left have "b \<in> set (Z @ l # Y)" by auto
    ultimately show ?thesis unfolding precedes_def by blast
  next
    case right
    then have "X @ l # Y = (X @ l # Z) @ a # Q" by simp
    with pq(2) show ?thesis unfolding precedes_def by blast
  qed
qed

lemma find_insert_unmatched:
  "\<not> Q l \<Longrightarrow> find Q (X @ l # Y) = find Q (X @ Y)"
  by (induction X) auto

lemma find_map_label:
  "map_option label (find (\<lambda>n. Q (label n)) xs) = find Q (map label xs)"
  by (induction xs) auto

lemma positions_append: "positions (xs @ ys) = positions xs @ positions ys"
  by (simp add: positions_def)

lemma positions_insert_unlocated:
  "labelLocation l = None \<Longrightarrow> positions (X @ l # Y) = positions (X @ Y)"
  by (simp add: positions_def)

lemma positions_member:
  "l \<in> set ls \<Longrightarrow> labelLocation l = Some p \<Longrightarrow> p \<in> set (positions ls)"
proof (induction ls)
  case Nil
  then show ?case by simp
next
  case (Cons a ls)
  have c: "positions (a # ls) = positions [a] @ positions ls" by (simp add: positions_def)
  show ?case
  proof (cases "l = a")
    case True
    with Cons.prems(2) have "positions [a] = [p]" by (simp add: positions_def)
    with c show ?thesis by simp
  next
    case False
    with Cons show ?thesis unfolding c by simp
  qed
qed

lemma positionBefore_trans:
  "positionBefore a b \<Longrightarrow> positionBefore b c \<Longrightarrow> positionBefore a c"
  by (auto simp: positionBefore_def)

lemma positionBefore_irrefl: "\<not> positionBefore a a"
  by (simp add: positionBefore_def)

lemma inSourceOrder_trans:
  "inSourceOrder a b \<Longrightarrow> inSourceOrder b c \<Longrightarrow> inSourceOrder a c"
  by (auto simp: inSourceOrder_def split: option.splits intro: positionBefore_trans)

lemma inSourceOrder_irrefl: "\<not> inSourceOrder a a"
  by (auto simp: inSourceOrder_def positionBefore_irrefl split: option.splits)

text \<open>In a tree in source order, a located node that is not positioned before another located
  node does not come before it in document order.\<close>

lemma sourceOrdered_not_before:
  assumes so: "sorted_wrt positionBefore (positions (X @ t # Y))"
    and c: "c \<in> set (X @ t # Y)"
    and lc: "labelLocation c = Some pc" and lt: "labelLocation t = Some pt"
    and nb: "\<not> positionBefore pc pt"
  shows "c \<in> set (t # Y)"
proof (rule ccontr)
  assume "c \<notin> set (t # Y)"
  with c have "c \<in> set X" by auto
  then have "pc \<in> set (positions X)" using lc by (rule positions_member)
  moreover have "positions (X @ t # Y) = positions X @ pt # positions Y"
    using lt by (simp add: positions_def)
  ultimately have "positionBefore pc pt"
    using so by (auto simp: sorted_wrt_append)
  with nb show False by simp
qed

lemma labels_insert_before_child:
  assumes k: "k < length cs" and leaf: "childNodes newNode = []"
  shows "\<exists>Z. labels cs = labels (take k cs) @ label (cs ! k) # Z \<and>
     labels (take k cs @ newNode # drop k cs) =
       labels (take k cs) @ label newNode # label (cs ! k) # Z"
proof -
  have d: "drop k cs = cs ! k # drop (Suc k) cs" using k by (simp add: Cons_nth_drop_Suc)
  have "labels cs = labels (take k cs) @ labels (drop k cs)"
    using labels_append [of "take k cs" "drop k cs"] by simp
  then have 1: "labels cs = labels (take k cs) @ label (cs ! k) #
      (labels (childNodes (cs ! k)) @ labels (drop (Suc k) cs))"
    unfolding d by (simp add: labels_Cons)
  have 2: "labels (take k cs @ newNode # drop k cs) =
      labels (take k cs) @ label newNode # label (cs ! k) #
      (labels (childNodes (cs ! k)) @ labels (drop (Suc k) cs))"
    using labels_insert_leaf [OF leaf, of k cs] by (simp add: d labels_Cons)
  from 1 2 show ?thesis by blast
qed

lemma insertBefore_labels:
  assumes d: "distinct (ids ast)" and t: "target \<in> set (docOrder ast)"
    and leaf: "childNodes newNode = []"
  shows "\<exists>X Y. labels ast = X @ label target # Y \<and>
     labels (dom5_insertBefore (parentNode ast (nid target)) (nid target) newNode ast) =
       X @ label newNode # label target # Y"
proof (cases "find (\<lambda>p. nid target \<in> nid ` set (childNodes p)) (docOrder ast)")
  case None
  then have par: "parentNode ast (nid target) = DocumentRoot" by (simp add: parentNode_def)
  from None have "\<not> (\<exists>p \<in> set (docOrder ast). target \<in> set (childNodes p))"
    by (auto simp: find_None_iff)
  with root_or_child [OF t] have "target \<in> set ast" by blast
  then have "nid target \<in> nid ` set ast" by blast
  from indexOf_found [OF this] obtain k where
    k: "k < length ast" "indexOf (nid target) ast = int k" "nid (ast ! k) = nid target" by blast
  from k(1) have "ast ! k \<in> set (docOrder ast)" using roots_in_docOrder [of ast] by auto
  with d t k(3) have eq: "ast ! k = target" by (auto dest: distinct_ids_unique)
  have res: "dom5_insertBefore (parentNode ast (nid target)) (nid target) newNode ast =
      take k ast @ newNode # drop k ast"
    using k(1,2) by (simp add: par dom5_insertBefore_def spliceInsert_at)
  from labels_insert_before_child [OF k(1) leaf] show ?thesis unfolding res eq by blast
next
  case (Some P)
  then have P: "P \<in> set (docOrder ast)" "nid target \<in> nid ` set (childNodes P)"
    by (auto dest!: find_Some_iff [THEN iffD1] simp: in_set_conv_nth)
  from Some have par: "parentNode ast (nid target) = Parent (nid P)" by (simp add: parentNode_def)
  from nodeAt_member [OF d P(1)] have "nodeAt ast (nid P) = Some P" .
  from blockAt_ast [OF d this] obtain A B where
    AB: "labels ast = A @ label P # labels (childNodes P) @ B"
      "\<And>f. labels (map (updNode (nid P) f) ast) = A @ label P # labels (f (childNodes P)) @ B"
    unfolding blockAt_def by blast
  from indexOf_found [OF P(2)] obtain k where
    k: "k < length (childNodes P)" "indexOf (nid target) (childNodes P) = int k"
      "nid (childNodes P ! k) = nid target" by blast
  from k(1) P(1) have "childNodes P ! k \<in> set (docOrder ast)"
    by (auto intro: child_in_docOrder)
  with d t k(3) have eq: "childNodes P ! k = target" by (auto dest: distinct_ids_unique)
  from labels_insert_before_child [OF k(1) leaf] obtain Z where
    Z: "labels (childNodes P) = labels (take k (childNodes P)) @ label target # Z"
      "labels (take k (childNodes P) @ newNode # drop k (childNodes P)) =
        labels (take k (childNodes P)) @ label newNode # label target # Z"
    unfolding eq by blast
  have f: "spliceInsert (indexOf (nid target) (childNodes P)) newNode (childNodes P) =
      take k (childNodes P) @ newNode # drop k (childNodes P)"
    using k(1,2) by (simp add: spliceInsert_at)
  have "labels ast = (A @ label P # labels (take k (childNodes P))) @ label target # (Z @ B)"
    using AB(1) Z(1) by simp
  moreover have "labels (dom5_insertBefore (parentNode ast (nid target)) (nid target) newNode ast) =
      (A @ label P # labels (take k (childNodes P))) @ label newNode # label target # (Z @ B)"
    unfolding par dom5_insertBefore_def updateChildren.simps
      AB(2) [of "\<lambda>cs. spliceInsert (indexOf (nid target) cs) newNode cs"] f Z(2) by simp
  ultimately show ?thesis by blast
qed

lemma dom5_append_inserts:
  assumes "distinct (ids ast)" "childNodes newNode = []"
    "par = DocumentRoot \<or> (\<exists>p. par = Parent p \<and> p \<in> set (ids ast))"
  shows "insertedLabel ast (dom5_append par newNode ast) (label newNode)"
  unfolding dom5_append_def
  by (rule updateChildren_inserts [OF assms(1,2) spliceInsert_form assms(3)])

lemma astUtils_insertAfter_inserts:
  assumes "distinct (ids ast)" "childNodes newNode = []"
  shows "insertedLabel ast (astUtils_insertAfter target newNode ast) (label newNode)"
  unfolding astUtils_insertAfter_def
  by (rule updateChildren_inserts [OF assms spliceInsert_form parentNode_valid])

lemma astUtils_prepend_inserts:
  assumes "distinct (ids ast)" "childNodes newNode = []" "p \<in> set (ids ast)"
  shows "insertedLabel ast (astUtils_prepend p newNode ast) (label newNode)"
  unfolding astUtils_prepend_def
proof (rule updateChildren_inserts [OF assms(1,2)])
  show "\<exists>k\<le>length cs. newNode # cs = take k cs @ newNode # drop k cs" for cs
    by (rule exI [of _ 0]) simp
  show "Parent p = DocumentRoot \<or> (\<exists>q. Parent p = Parent q \<and> q \<in> set (ids ast))"
    using assms(3) by simp
qed

lemma query_member: "query ast Q = Some n \<Longrightarrow> n \<in> set (docOrder ast)"
  by (auto simp: query_def dest!: find_Some_iff [THEN iffD1] simp: in_set_conv_nth)

lemma query_id: "query ast Q = Some n \<Longrightarrow> nid n \<in> set (ids ast)"
  by (auto simp: ids_def dest: query_member)

lemma attachHiddenDiv_inserts:
  assumes "distinct (ids ast)" "childNodes newDiv = []"
  shows "insertedLabel ast (attachHiddenDiv M ast newDiv) (label newDiv)"
  unfolding attachHiddenDiv_def Let_def
  using assms
  by (auto split: option.splits
      intro!: astUtils_insertAfter_inserts astUtils_prepend_inserts dom5_append_inserts
      dest: query_id)

lemma prependTargetStep_anchorOf:
  "prependTargetStep document ast u acc e =
     (case anchorOf document ast u e of
        None \<Rightarrow> acc
      | Some n \<Rightarrow>
          (case acc of None \<Rightarrow> Some n
           | Some old \<Rightarrow> if inSourceOrder n old then Some n else Some old))"
  by (simp add: prependTargetStep_def anchorOf_def split: option.splits)

lemma anchorsIn_Cons:
  "anchorsIn document ast u (e # es) =
     (case anchorOf document ast u e of None \<Rightarrow> [] | Some n \<Rightarrow> [n]) @ anchorsIn document ast u es"
  by (simp add: anchorsIn_def)

lemma foldl_prependTarget_Some:
  "\<exists>t. foldl (prependTargetStep document ast u) (Some a) es = Some t \<and>
     (t = a \<or> inSourceOrder t a) \<and>
     t \<in> insert a (set (anchorsIn document ast u es)) \<and>
     (\<forall>c \<in> insert a (set (anchorsIn document ast u es)). \<not> inSourceOrder c t)"
proof (induction es arbitrary: a)
  case Nil
  show ?case by (simp add: anchorsIn_def inSourceOrder_irrefl)
next
  case (Cons e es)
  show ?case
  proof (cases "anchorOf document ast u e")
    case None
    with Cons.IH [of a] show ?thesis
      by (simp add: prependTargetStep_anchorOf anchorsIn_Cons)
  next
    case (Some n)
    show ?thesis
    proof (cases "inSourceOrder n a")
      case True
      from Cons.IH [of n] obtain t where t:
        "foldl (prependTargetStep document ast u) (Some n) es = Some t"
        "t = n \<or> inSourceOrder t n"
        "t \<in> insert n (set (anchorsIn document ast u es))"
        "\<forall>c \<in> insert n (set (anchorsIn document ast u es)). \<not> inSourceOrder c t" by blast
      have ta: "inSourceOrder t a" using t(2) True by (auto intro: inSourceOrder_trans)
      have na: "\<not> inSourceOrder a t"
        using ta inSourceOrder_trans [of a t a] inSourceOrder_irrefl [of a] by blast
      have "foldl (prependTargetStep document ast u) (Some a) (e # es) = Some t"
        using Some True t(1) by (simp add: prependTargetStep_anchorOf)
      moreover have "t \<in> insert a (set (anchorsIn document ast u (e # es)))"
        using t(3) Some by (auto simp: anchorsIn_Cons)
      moreover have "\<forall>c \<in> insert a (set (anchorsIn document ast u (e # es))). \<not> inSourceOrder c t"
        using t(4) na Some by (auto simp: anchorsIn_Cons)
      ultimately show ?thesis using ta by blast
    next
      case False
      from Cons.IH [of a] obtain t where t:
        "foldl (prependTargetStep document ast u) (Some a) es = Some t"
        "t = a \<or> inSourceOrder t a"
        "t \<in> insert a (set (anchorsIn document ast u es))"
        "\<forall>c \<in> insert a (set (anchorsIn document ast u es)). \<not> inSourceOrder c t" by blast
      have nt: "\<not> inSourceOrder n t"
        using t(2) False by (auto dest: inSourceOrder_trans)
      have "foldl (prependTargetStep document ast u) (Some a) (e # es) = Some t"
        using Some False t(1) by (simp add: prependTargetStep_anchorOf)
      moreover have "t \<in> insert a (set (anchorsIn document ast u (e # es)))"
        using t(3) Some by (auto simp: anchorsIn_Cons)
      moreover have "\<forall>c \<in> insert a (set (anchorsIn document ast u (e # es))). \<not> inSourceOrder c t"
        using t(4) nt Some by (auto simp: anchorsIn_Cons)
      ultimately show ?thesis using t(2) by blast
    qed
  qed
qed

lemma foldl_prependTarget_None:
  "(anchorsIn document ast u es = [] \<longrightarrow>
      foldl (prependTargetStep document ast u) None es = None) \<and>
   (anchorsIn document ast u es \<noteq> [] \<longrightarrow>
      (\<exists>t. foldl (prependTargetStep document ast u) None es = Some t \<and>
         t \<in> set (anchorsIn document ast u es) \<and>
         (\<forall>c \<in> set (anchorsIn document ast u es). \<not> inSourceOrder c t)))"
proof (induction es)
  case Nil
  show ?case by (simp add: anchorsIn_def)
next
  case (Cons e es)
  show ?case
  proof (cases "anchorOf document ast u e")
    case None
    with Cons.IH show ?thesis by (simp add: prependTargetStep_anchorOf anchorsIn_Cons)
  next
    case (Some n)
    from foldl_prependTarget_Some [of document ast u n es] obtain t where t:
      "foldl (prependTargetStep document ast u) (Some n) es = Some t"
      "t \<in> insert n (set (anchorsIn document ast u es))"
      "\<forall>c \<in> insert n (set (anchorsIn document ast u es)). \<not> inSourceOrder c t" by blast
    have "foldl (prependTargetStep document ast u) None (e # es) = Some t"
      using Some t(1) by (simp add: prependTargetStep_anchorOf)
    moreover have "t \<in> set (anchorsIn document ast u (e # es))"
      using t(2) Some by (auto simp: anchorsIn_Cons)
    moreover have "\<forall>c \<in> set (anchorsIn document ast u (e # es)). \<not> inSourceOrder c t"
      using t(3) Some by (auto simp: anchorsIn_Cons)
    moreover have "anchorsIn document ast u (e # es) \<noteq> []"
      using Some by (simp add: anchorsIn_Cons)
    ultimately show ?thesis by blast
  qed
qed

lemma findPrependTarget_earliest:
  "(anchorCandidates document bundleFiles ast u = [] \<longrightarrow>
      findPrependTarget document bundleFiles ast u = None) \<and>
   (anchorCandidates document bundleFiles ast u \<noteq> [] \<longrightarrow>
      (\<exists>t. findPrependTarget document bundleFiles ast u = Some t \<and>
         t \<in> set (anchorCandidates document bundleFiles ast u) \<and>
         (\<forall>c \<in> set (anchorCandidates document bundleFiles ast u). \<not> inSourceOrder c t)))"
  using foldl_prependTarget_None [of document ast u
      "filter (\<lambda>e. \<not> set_has bundleFiles (documentUrl e)) (existingImports document)"]
  by (simp add: findPrependTarget_def anchorCandidates_def anchorsIn_def)

lemma anchorCandidates_found:
  "c \<in> set (anchorCandidates document bundleFiles ast u) \<Longrightarrow>
   c \<in> set (docOrder ast) \<and> location c \<noteq> None"
proof -
  assume "c \<in> set (anchorCandidates document bundleFiles ast u)"
  then obtain e where "anchorOf document ast u e = Some c"
    by (auto simp: anchorCandidates_def split: option.splits)
  then have q: "query ast (\<lambda>n. sameNode n (astNode e)) = Some c"
    by (auto simp: anchorOf_def split: option.splits if_splits)
  then have "sameNode c (astNode e)"
    by (auto simp: query_def dest!: find_Some_iff [THEN iffD1])
  then have "location c \<noteq> None" unfolding sameNode_def by blast
  moreover from q have "c \<in> set (docOrder ast)" by (rule query_member)
  ultimately show ?thesis by blast
qed

lemma childNodes_updNode:
  "childNodes (updNode p f n) =
     (if nid n = p then f (childNodes n) else map (updNode p f) (childNodes n))"
  by (cases n) simp

lemma nodeAt_updNode:
  "nodeAt ast p = Some P \<Longrightarrow> nodeAt (map (updNode p f) ast) p = Some (updNode p f P)"
proof (induction ast rule: forest_induct)
  case Nil
  then show ?case by simp
next
  case (Cons c cs)
  show ?case
  proof (cases "nid c = p")
    case True
    with Cons.prems show ?thesis by (simp add: nodeAt_Cons)
  next
    case False
    show ?thesis
    proof (cases "nodeAt (childNodes c) p")
      case None
      then have "p \<notin> set (ids (childNodes c))" by (simp add: nodeAt_None)
      then have "map (updNode p f) (childNodes c) = childNodes c" by (rule updForest_absent)
      moreover from None False Cons.prems have "nodeAt cs p = Some P" by (simp add: nodeAt_Cons)
      ultimately show ?thesis
        using False None Cons.IH(2) by (simp add: nodeAt_Cons childNodes_updNode)
    next
      case (Some x)
      with False Cons.prems have "x = P" by (simp add: nodeAt_Cons)
      with Some Cons.IH(1) False show ?thesis by (simp add: nodeAt_Cons childNodes_updNode)
    qed
  qed
qed

lemma childrenOf_updateChildren:
  assumes "par = DocumentRoot \<or> (\<exists>p. par = Parent p \<and> p \<in> set (ids ast))"
  shows "childrenOf par (updateChildren par f ast) = f (childrenOf par ast)"
proof (cases par)
  case DocumentRoot
  then show ?thesis by simp
next
  case (Parent p)
  with assms have "p \<in> set (ids ast)" by simp
  then obtain P where P: "nodeAt ast p = Some P"
    using nodeAt_None [of ast p] by (cases "nodeAt ast p") auto
  then have "nid P = p" by (rule nodeAt_Some_nid)
  with nodeAt_updNode [OF P, of f] P show ?thesis
    by (simp add: Parent childNodes_updNode)
qed

lemma child_of_parentNode:
  assumes d: "distinct (ids ast)" and k: "k \<in> set (ids ast)"
  shows "k \<in> nid ` set (childrenOf (parentNode ast k) ast)"
proof (cases "find (\<lambda>p. k \<in> nid ` set (childNodes p)) (docOrder ast)")
  case None
  from k obtain n where n: "n \<in> set (docOrder ast)" "nid n = k" by (auto simp: ids_def)
  from None have "\<not> (\<exists>p \<in> set (docOrder ast). n \<in> set (childNodes p))"
    using n(2) by (auto simp: find_None_iff)
  with root_or_child [OF n(1)] have "n \<in> set ast" by blast
  with n(2) None show ?thesis by (auto simp: parentNode_def)
next
  case (Some P)
  then have P: "P \<in> set (docOrder ast)" "k \<in> nid ` set (childNodes P)"
    by (auto dest!: find_Some_iff [THEN iffD1] simp: in_set_conv_nth)
  from nodeAt_member [OF d P(1)] P(2) Some show ?thesis by (simp add: parentNode_def)
qed

lemma insertedLabel_ids:
  "insertedLabel ast ast' l \<Longrightarrow> \<exists>X Y. ids ast = X @ Y \<and> ids ast' = X @ fst l # Y"
  unfolding insertedLabel_def ids_labels by force

lemma insertedLabel_distinct:
  "insertedLabel ast ast' l \<Longrightarrow> distinct (ids ast) \<Longrightarrow> fst l \<notin> set (ids ast) \<Longrightarrow>
   distinct (ids ast')"
  by (auto dest!: insertedLabel_ids)

lemma insertedLabel_set_ids:
  "insertedLabel ast ast' l \<Longrightarrow> set (ids ast') = insert (fst l) (set (ids ast))"
  by (auto dest!: insertedLabel_ids)

lemma insertedLabel_set_labels:
  "insertedLabel ast ast' l \<Longrightarrow> set (labels ast') = insert l (set (labels ast))"
  unfolding insertedLabel_def by auto

lemma grows_refl: "grows ast ast"
  by (simp add: grows_def)

lemma grows_step: "grows a b \<Longrightarrow> insertedFresh b c \<Longrightarrow> grows a c"
  unfolding grows_def by (rule rtranclp.rtrancl_into_rtrancl)

lemma grows_trans: "grows a b \<Longrightarrow> grows b c \<Longrightarrow> grows a c"
  unfolding grows_def by (rule rtranclp_trans)

lemma grows_induct [consumes 1, case_names base step]:
  assumes "grows a b" and "Q a" and "\<And>y z. grows a y \<Longrightarrow> insertedFresh y z \<Longrightarrow> Q y \<Longrightarrow> Q z"
  shows "Q b"
  using assms unfolding grows_def by (induction rule: rtranclp_induct) auto

lemma grows_distinct: "grows a b \<Longrightarrow> distinct (ids a) \<Longrightarrow> distinct (ids b)"
  by (induction rule: grows_induct) (auto simp: insertedFresh_def intro: insertedLabel_distinct)

lemma grows_labels: "grows a b \<Longrightarrow> set (labels a) \<subseteq> set (labels b)"
  by (induction rule: grows_induct) (auto simp: insertedFresh_def dest: insertedLabel_set_labels)

lemma grows_ids: "grows a b \<Longrightarrow> set (ids a) \<subseteq> set (ids b)"
  by (induction rule: grows_induct) (auto simp: insertedFresh_def dest: insertedLabel_set_ids)

lemma grows_precedes: "grows a b \<Longrightarrow> precedes (labels a) x y \<Longrightarrow> precedes (labels b) x y"
proof (induction rule: grows_induct)
  case base
  then show ?case .
next
  case (step y z)
  then obtain l X Y where "labels y = X @ Y" "labels z = X @ l # Y"
    unfolding insertedFresh_def insertedLabel_def by blast
  with step.IH step.prems show ?case by (simp add: precedes_insert)
qed

lemma grows_sourceOrdered: "grows a b \<Longrightarrow> sourceOrdered a \<Longrightarrow> sourceOrdered b"
proof (induction rule: grows_induct)
  case base
  then show ?case .
next
  case (step y z)
  then obtain l X Y where "labels y = X @ Y" "labels z = X @ l # Y" "labelLocation l = None"
    unfolding insertedFresh_def insertedLabel_def by blast
  with step.IH step.prems show ?case
    by (simp add: sourceOrdered_def positions_insert_unlocated)
qed

lemma query_sameNode_labels:
  "map_option label (query ast (\<lambda>n. sameNode n a)) =
     find (\<lambda>l. labelIsElement l \<and> labelSameNode a l) (labels ast)"
proof -
  have "(\<lambda>n. isElement n \<and> sameNode n a) = (\<lambda>n. labelIsElement (label n) \<and> labelSameNode a (label n))"
    by (rule ext) (simp add: isElement_def labelIsElement_def sameNode_def labelSameNode_def label_def
        labelLocation_def)
  then show ?thesis
    unfolding query_def labels_def using find_map_label [of "\<lambda>l. labelIsElement l \<and> labelSameNode a l"]
    by simp
qed

lemma grows_query_sameNode:
  "grows a b \<Longrightarrow>
   map_option label (query b (\<lambda>n. sameNode n x)) = map_option label (query a (\<lambda>n. sameNode n x))"
proof (induction rule: grows_induct)
  case base
  show ?case by simp
next
  case (step y z)
  then obtain l X Y where l: "labels y = X @ Y" "labels z = X @ l # Y" "labelLocation l = None"
    unfolding insertedFresh_def insertedLabel_def by blast
  then have "\<not> (labelIsElement l \<and> labelSameNode x l)" by (simp add: labelSameNode_def)
  then have "find (\<lambda>l. labelIsElement l \<and> labelSameNode x l) (labels z) =
      find (\<lambda>l. labelIsElement l \<and> labelSameNode x l) (labels y)"
    unfolding l by (rule find_insert_unmatched)
  with step.IH show ?case by (simp add: query_sameNode_labels)
qed

lemma grows_anchorCandidates:
  assumes "grows a b"
  shows "map label (anchorCandidates document bundleFiles b u) =
     map label (anchorCandidates document bundleFiles a u)"
proof -
  have one: "map label (case anchorOf document b u e of None \<Rightarrow> [] | Some n \<Rightarrow> [n]) =
      map label (case anchorOf document a u e of None \<Rightarrow> [] | Some n \<Rightarrow> [n])" for e
  proof -
    have "map_option label (anchorOf document b u e) = map_option label (anchorOf document a u e)"
      using grows_query_sameNode [OF assms, of "astNode e"]
      by (simp add: anchorOf_def split: option.splits)
    then show ?thesis by (cases "anchorOf document b u e"; cases "anchorOf document a u e") auto
  qed
  show ?thesis
    unfolding anchorCandidates_def map_concat map_map comp_def one ..
qed

lemma createHtmlImport_leaf [simp]: "childNodes (createHtmlImport k u) = []"
  by (simp add: createHtmlImport_def)

lemma createHiddenDiv_leaf [simp]: "childNodes (createHiddenDiv k) = []"
  by (simp add: createHiddenDiv_def)

lemma createHtmlImport_label [simp]:
  "nid (createHtmlImport k u) = k" "location (createHtmlImport k u) = None"
  by (simp_all add: createHtmlImport_def)

lemma createHiddenDiv_label [simp]:
  "nid (createHiddenDiv k) = k" "location (createHiddenDiv k) = None"
  by (simp_all add: createHiddenDiv_def)

lemma findOrCreateHiddenDiv_cases:
  assumes d: "distinct (ids ast)"
  shows "(fst (findOrCreateHiddenDiv M (ast, n)) = ast \<and>
          fst (snd (findOrCreateHiddenDiv M (ast, n))) = n \<and>
          snd (snd (findOrCreateHiddenDiv M (ast, n))) \<in> set (ids ast)) \<or>
         (insertedLabel ast (fst (findOrCreateHiddenDiv M (ast, n))) (label (createHiddenDiv n)) \<and>
          fst (snd (findOrCreateHiddenDiv M (ast, n))) = Suc n \<and>
          snd (snd (findOrCreateHiddenDiv M (ast, n))) = n)"
proof (cases "query ast (matches (hiddenDiv M))")
  case None
  then show ?thesis
    using attachHiddenDiv_inserts [OF d createHiddenDiv_leaf, of M n]
    by (simp add: findOrCreateHiddenDiv_def)
next
  case (Some found)
  then show ?thesis by (auto simp: findOrCreateHiddenDiv_def dest: query_id)
qed

lemma findOrCreateHiddenDiv_wf:
  assumes wf: "wfDom (ast, n)"
  shows "grows ast (fst (findOrCreateHiddenDiv M (ast, n))) \<and>
         wfDom (fst (findOrCreateHiddenDiv M (ast, n)), fst (snd (findOrCreateHiddenDiv M (ast, n)))) \<and>
         snd (snd (findOrCreateHiddenDiv M (ast, n))) \<in> set (ids (fst (findOrCreateHiddenDiv M (ast, n)))) \<and>
         n \<le> fst (snd (findOrCreateHiddenDiv M (ast, n)))"
proof -
  from wf have d: "distinct (ids ast)" and lt: "\<forall>i \<in> set (ids ast). i < n"
    by (simp_all add: wfDom_def)
  from findOrCreateHiddenDiv_cases [OF d, of M n] show ?thesis
  proof
    assume "fst (findOrCreateHiddenDiv M (ast, n)) = ast \<and>
          fst (snd (findOrCreateHiddenDiv M (ast, n))) = n \<and>
          snd (snd (findOrCreateHiddenDiv M (ast, n))) \<in> set (ids ast)"
    with wf show ?thesis by (simp add: grows_refl)
  next
    assume c: "insertedLabel ast (fst (findOrCreateHiddenDiv M (ast, n))) (label (createHiddenDiv n)) \<and>
          fst (snd (findOrCreateHiddenDiv M (ast, n))) = Suc n \<and>
          snd (snd (findOrCreateHiddenDiv M (ast, n))) = n"
    let ?a = "fst (findOrCreateHiddenDiv M (ast, n))"
    from lt have fresh: "n \<notin> set (ids ast)" by auto
    from c fresh have "insertedFresh ast ?a" unfolding insertedFresh_def
      by (intro exI [of _ "label (createHiddenDiv n)"]) simp
    then have g: "grows ast ?a" using grows_step [OF grows_refl] by blast
    from c have "insertedLabel ast ?a (label (createHiddenDiv n))" by simp
    from insertedLabel_set_ids [OF this] have s: "set (ids ?a) = insert n (set (ids ast))"
      by simp
    have "distinct (ids ?a)" using g d by (rule grows_distinct)
    with s lt c g show ?thesis by (auto simp: wfDom_def less_Suc_eq)
  qed
qed

lemma not_existing_import:
  "(\<exists>e \<in> set (existingImports document). documentUrl e = u) = False \<longleftrightarrow>
   (\<forall>e \<in> set (existingImports document). documentUrl e \<noteq> u)"
  by blast

lemma injectHtmlImport_anchor:
  assumes wf: "wfDom st" and u: "u \<noteq> bundleUrl"
    "\<forall>e \<in> set (existingImports document). documentUrl e \<noteq> u"
    and C: "anchorCandidates document bundleFiles (fst st) u \<noteq> []"
  shows "\<exists>t \<in> set (anchorCandidates document bundleFiles (fst st) u).
      (\<forall>c \<in> set (anchorCandidates document bundleFiles (fst st) u). \<not> inSourceOrder c t) \<and>
      (\<exists>X Y. labels (fst st) = X @ label t # Y \<and>
         labels (fst (injectHtmlImport M relativeUrl document bundleUrl bundleFiles st u)) =
           X @ label (createHtmlImport (snd st) (relativeUrl bundleUrl u)) # label t # Y) \<and>
      snd (injectHtmlImport M relativeUrl document bundleUrl bundleFiles st u) = Suc (snd st)"
proof -
  from findPrependTarget_earliest [of document bundleFiles "fst st" u] C obtain t where
    t: "findPrependTarget document bundleFiles (fst st) u = Some t"
      "t \<in> set (anchorCandidates document bundleFiles (fst st) u)"
      "\<forall>c \<in> set (anchorCandidates document bundleFiles (fst st) u). \<not> inSourceOrder c t"
    by blast
  from t(2) have mem: "t \<in> set (docOrder (fst st))" by (simp add: anchorCandidates_found)
  from wf have d: "distinct (ids (fst st))" by (simp add: wfDom_def)
  have res: "injectHtmlImport M relativeUrl document bundleUrl bundleFiles st u =
      (dom5_insertBefore (parentNode (fst st) (nid t)) (nid t)
         (createHtmlImport (snd st) (relativeUrl bundleUrl u)) (fst st), Suc (snd st))"
    using u t(1) by (auto simp: injectHtmlImport_def Let_def)
  from insertBefore_labels [OF d mem createHtmlImport_leaf, of "snd st" "relativeUrl bundleUrl u"]
  show ?thesis unfolding res using t(2,3) by auto
qed

lemma injectHtmlImport_append:
  assumes wf: "wfDom st" and u: "u \<noteq> bundleUrl"
    "\<forall>e \<in> set (existingImports document). documentUrl e \<noteq> u"
    and C: "anchorCandidates document bundleFiles (fst st) u = []"
  shows "fst (injectHtmlImport M relativeUrl document bundleUrl bundleFiles st u) =
      dom5_append
        (parentNode (fst (findOrCreateHiddenDiv M (fst st, Suc (snd st))))
           (snd (snd (findOrCreateHiddenDiv M (fst st, Suc (snd st))))))
        (createHtmlImport (snd st) (relativeUrl bundleUrl u))
        (fst (findOrCreateHiddenDiv M (fst st, Suc (snd st))))"
    and "snd (injectHtmlImport M relativeUrl document bundleUrl bundleFiles st u) =
      fst (snd (findOrCreateHiddenDiv M (fst st, Suc (snd st))))"
proof -
  from findPrependTarget_earliest [of document bundleFiles "fst st" u] C
  have "findPrependTarget document bundleFiles (fst st) u = None" by blast
  then show "fst (injectHtmlImport M relativeUrl document bundleUrl bundleFiles st u) =
      dom5_append
        (parentNode (fst (findOrCreateHiddenDiv M (fst st, Suc (snd st))))
           (snd (snd (findOrCreateHiddenDiv M (fst st, Suc (snd st))))))
        (createHtmlImport (snd st) (relativeUrl bundleUrl u))
        (fst (findOrCreateHiddenDiv M (fst st, Suc (snd st))))"
    and "snd (injectHtmlImport M relativeUrl document bundleUrl bundleFiles st u) =
      fst (snd (findOrCreateHiddenDiv M (fst st, Suc (snd st))))"
    using u by (auto simp: injectHtmlImport_def Let_def)
qed

lemma injectHtmlImport_grows:
  assumes wf: "wfDom st"
  shows "grows (fst st) (fst (injectHtmlImport M relativeUrl document bundleUrl bundleFiles st u)) \<and>
         wfDom (injectHtmlImport M relativeUrl document bundleUrl bundleFiles st u)"
proof (cases "u \<noteq> bundleUrl \<and> (\<forall>e \<in> set (existingImports document). documentUrl e \<noteq> u)")
  case False
  then have "injectHtmlImport M relativeUrl document bundleUrl bundleFiles st u = st"
    by (auto simp: injectHtmlImport_def)
  with wf show ?thesis by (simp add: grows_refl)
next
  case True
  let ?new = "createHtmlImport (snd st) (relativeUrl bundleUrl u)"
  let ?r = "injectHtmlImport M relativeUrl document bundleUrl bundleFiles st u"
  from wf have d: "distinct (ids (fst st))" and lt: "\<forall>i \<in> set (ids (fst st)). i < snd st"
    by (simp_all add: wfDom_def)
  from lt have fresh: "snd st \<notin> set (ids (fst st))" by auto
  show ?thesis
  proof (cases "anchorCandidates document bundleFiles (fst st) u = []")
    case False
    from injectHtmlImport_anchor [OF wf _ _ False, of bundleUrl M relativeUrl] True
    obtain t X Y where r: "labels (fst st) = X @ label t # Y"
      "labels (fst ?r) = X @ label ?new # label t # Y" "snd ?r = Suc (snd st)" by blast
    then have "insertedLabel (fst st) (fst ?r) (label ?new)"
      unfolding insertedLabel_def by blast
    with fresh have i: "insertedFresh (fst st) (fst ?r)"
      unfolding insertedFresh_def by (intro exI [of _ "label ?new"]) simp
    then have g: "grows (fst st) (fst ?r)" using grows_step [OF grows_refl] by blast
    have "set (ids (fst ?r)) = insert (snd st) (set (ids (fst st)))"
      using r(1,2) by (auto simp: ids_labels)
    with lt r(3) grows_distinct [OF g d] g show ?thesis by (auto simp: wfDom_def less_Suc_eq)
  next
    case C: True
    let ?f = "findOrCreateHiddenDiv M (fst st, Suc (snd st))"
    from wf have wf1: "wfDom (fst st, Suc (snd st))" by (auto simp: wfDom_def less_Suc_eq)
    note f = findOrCreateHiddenDiv_wf [OF wf1, of M]
    from f have g1: "grows (fst st) (fst ?f)" and d1: "distinct (ids (fst ?f))"
      and hd: "snd (snd ?f) \<in> set (ids (fst ?f))" and lt1: "\<forall>i \<in> set (ids (fst ?f)). i < fst (snd ?f)"
      and le: "Suc (snd st) \<le> fst (snd ?f)"
      by (simp_all add: wfDom_def)
    have fresh1: "snd st \<notin> set (ids (fst ?f))"
    proof -
      from findOrCreateHiddenDiv_cases [OF d, of M "Suc (snd st)"]
      consider "fst ?f = fst st"
        | "insertedLabel (fst st) (fst ?f) (label (createHiddenDiv (Suc (snd st))))" by blast
      then have "set (ids (fst ?f)) \<subseteq> insert (Suc (snd st)) (set (ids (fst st)))"
      proof cases
        case 1
        then show ?thesis by auto
      next
        case 2
        from insertedLabel_set_ids [OF this] show ?thesis by simp
      qed
      with fresh show ?thesis by auto
    qed
    from injectHtmlImport_append [OF wf _ _ C, of bundleUrl M relativeUrl] True
    have r: "fst ?r = dom5_append (parentNode (fst ?f) (snd (snd ?f))) ?new (fst ?f)"
      "snd ?r = fst (snd ?f)" by blast+
    have il: "insertedLabel (fst ?f) (fst ?r) (label ?new)"
      unfolding r by (rule dom5_append_inserts [OF d1 createHtmlImport_leaf parentNode_valid])
    with fresh1 have i: "insertedFresh (fst ?f) (fst ?r)"
      unfolding insertedFresh_def by (intro exI [of _ "label ?new"]) simp
    from insertedLabel_set_ids [OF il]
    have s: "set (ids (fst ?r)) = insert (snd st) (set (ids (fst ?f)))" by simp
    from g1 i have g: "grows (fst st) (fst ?r)" by (rule grows_step)
    from s lt1 le r(2) grows_distinct [OF g d] g show ?thesis by (auto simp: wfDom_def)
  qed
qed

lemma foldl_inject_grows:
  "wfDom st \<Longrightarrow>
   grows (fst st) (fst (foldl (injectHtmlImport M relativeUrl document bundleUrl bundleFiles) st us)) \<and>
   wfDom (foldl (injectHtmlImport M relativeUrl document bundleUrl bundleFiles) st us)"
proof (induction us arbitrary: st)
  case Nil
  then show ?case by (simp add: grows_refl)
next
  case (Cons a us)
  from injectHtmlImport_grows [OF Cons.prems, of M relativeUrl document bundleUrl bundleFiles a]
  have g: "grows (fst st) (fst (injectHtmlImport M relativeUrl document bundleUrl bundleFiles st a))"
    and w: "wfDom (injectHtmlImport M relativeUrl document bundleUrl bundleFiles st a)" by auto
  from Cons.IH [OF w] g show ?case by (auto intro: grows_trans)
qed

lemma injectHtmlImport_precedes:
  assumes wf: "wfDom st" and so: "sourceOrdered (fst st)" and u: "u \<noteq> bundleUrl"
    "\<forall>e \<in> set (existingImports document). documentUrl e \<noteq> u"
  shows "label (createHtmlImport (snd st) (relativeUrl bundleUrl u)) \<in>
      set (labels (fst (injectHtmlImport M relativeUrl document bundleUrl bundleFiles st u))) \<and>
    (\<forall>c \<in> set (anchorCandidates document bundleFiles (fst st) u).
       precedes (labels (fst (injectHtmlImport M relativeUrl document bundleUrl bundleFiles st u)))
         (label (createHtmlImport (snd st) (relativeUrl bundleUrl u))) (label c))"
proof (cases "anchorCandidates document bundleFiles (fst st) u = []")
  case True
  let ?f = "findOrCreateHiddenDiv M (fst st, Suc (snd st))"
  from wf have wf1: "wfDom (fst st, Suc (snd st))" by (auto simp: wfDom_def less_Suc_eq)
  from findOrCreateHiddenDiv_wf [OF wf1, of M] have d1: "distinct (ids (fst ?f))"
    by (simp add: wfDom_def)
  from injectHtmlImport_append(1) [OF wf u True, of M relativeUrl]
  have "insertedLabel (fst ?f) (fst (injectHtmlImport M relativeUrl document bundleUrl bundleFiles st u))
      (label (createHtmlImport (snd st) (relativeUrl bundleUrl u)))"
    by (simp add: dom5_append_inserts [OF d1 createHtmlImport_leaf parentNode_valid])
  from insertedLabel_set_labels [OF this] True show ?thesis by simp
next
  case False
  let ?new = "createHtmlImport (snd st) (relativeUrl bundleUrl u)"
  let ?r = "injectHtmlImport M relativeUrl document bundleUrl bundleFiles st u"
  from injectHtmlImport_anchor [OF wf u False, of M relativeUrl]
  obtain t X Y where t: "t \<in> set (anchorCandidates document bundleFiles (fst st) u)"
    "\<forall>c \<in> set (anchorCandidates document bundleFiles (fst st) u). \<not> inSourceOrder c t"
    "labels (fst st) = X @ label t # Y" "labels (fst ?r) = X @ label ?new # label t # Y"
    by blast
  from anchorCandidates_found [OF t(1)] obtain pt where pt: "location t = Some pt" by auto
  have "precedes (labels (fst ?r)) (label ?new) (label c)"
    if c: "c \<in> set (anchorCandidates document bundleFiles (fst st) u)" for c
  proof -
    from anchorCandidates_found [OF c] obtain pc where
      pc: "c \<in> set (docOrder (fst st))" "location c = Some pc" by auto
    from t(2) c pt pc(2) have nb: "\<not> positionBefore pc pt" by (auto simp: inSourceOrder_def)
    from pc(1) have "label c \<in> set (X @ label t # Y)"
      unfolding t(3) [symmetric] labels_def by simp
    moreover from so have "sorted_wrt positionBefore (positions (X @ label t # Y))"
      by (simp add: sourceOrdered_def t(3))
    ultimately have "label c \<in> set (label t # Y)"
      using sourceOrdered_not_before [of X "label t" Y "label c" pc pt] pc(2) pt nb by simp
    then show ?thesis unfolding t(4) precedes_def by blast
  qed
  with t(4) show ?thesis by simp
qed

lemma foldl_inject_precedes:
  assumes "wfDom st" and "sourceOrdered (fst st)" and "u \<in> set us" and "u \<noteq> bundleUrl"
    and "\<forall>e \<in> set (existingImports document). documentUrl e \<noteq> u"
  shows "\<exists>k. k \<notin> set (ids (fst st)) \<and>
      label (createHtmlImport k (relativeUrl bundleUrl u)) \<in>
        set (labels (fst (foldl (injectHtmlImport M relativeUrl document bundleUrl bundleFiles) st us))) \<and>
      (\<forall>c \<in> set (anchorCandidates document bundleFiles (fst st) u).
         precedes (labels (fst (foldl (injectHtmlImport M relativeUrl document bundleUrl bundleFiles) st us)))
           (label (createHtmlImport k (relativeUrl bundleUrl u))) (label c))"
  using assms(1,2,3)
proof (induction us arbitrary: st)
  case Nil
  then show ?case by simp
next
  case (Cons a us)
  let ?step = "injectHtmlImport M relativeUrl document bundleUrl bundleFiles"
  let ?st1 = "?step st a"
  from injectHtmlImport_grows [OF Cons.prems(1), of M relativeUrl document bundleUrl bundleFiles a]
  have g1: "grows (fst st) (fst ?st1)" and w1: "wfDom ?st1" by auto
  from foldl_inject_grows [OF w1, of M relativeUrl document bundleUrl bundleFiles us]
  have g2: "grows (fst ?st1) (fst (foldl ?step ?st1 us))" by simp
  show ?case
  proof (cases "a = u")
    case True
    let ?new = "createHtmlImport (snd st) (relativeUrl bundleUrl u)"
    from injectHtmlImport_precedes [OF Cons.prems(1,2) assms(4,5), of relativeUrl M bundleFiles]
    have m: "label ?new \<in> set (labels (fst (?step st u)))"
      and p: "\<forall>c \<in> set (anchorCandidates document bundleFiles (fst st) u).
         precedes (labels (fst (?step st u))) (label ?new) (label c)" by auto
    from Cons.prems(1) have "snd st \<notin> set (ids (fst st))" by (auto simp: wfDom_def)
    moreover from m g2 True have "label ?new \<in> set (labels (fst (foldl ?step st (a # us))))"
      using grows_labels by fastforce
    moreover have "\<forall>c \<in> set (anchorCandidates document bundleFiles (fst st) u).
         precedes (labels (fst (foldl ?step st (a # us)))) (label ?new) (label c)"
      using p g2 True by (auto intro: grows_precedes)
    ultimately show ?thesis by blast
  next
    case False
    with Cons.prems(3) have u: "u \<in> set us" by simp
    from grows_sourceOrdered [OF g1 Cons.prems(2)] have so1: "sourceOrdered (fst ?st1)" .
    from Cons.IH [OF w1 so1 u] obtain k where
      k: "k \<notin> set (ids (fst ?st1))"
        "label (createHtmlImport k (relativeUrl bundleUrl u)) \<in> set (labels (fst (foldl ?step ?st1 us)))"
        "\<forall>c \<in> set (anchorCandidates document bundleFiles (fst ?st1) u).
           precedes (labels (fst (foldl ?step ?st1 us)))
             (label (createHtmlImport k (relativeUrl bundleUrl u))) (label c)" by blast
    from k(1) grows_ids [OF g1] have k1: "k \<notin> set (ids (fst st))" by auto
    have "precedes (labels (fst (foldl ?step ?st1 us)))
        (label (createHtmlImport k (relativeUrl bundleUrl u))) (label c)"
      if c: "c \<in> set (anchorCandidates document bundleFiles (fst st) u)" for c
    proof -
      from c have "label c \<in> set (map label (anchorCandidates document bundleFiles (fst st) u))"
        by simp
      then have "label c \<in> set (map label (anchorCandidates document bundleFiles (fst ?st1) u))"
        unfolding grows_anchorCandidates [OF g1] .
      then obtain c' where "c' \<in> set (anchorCandidates document bundleFiles (fst ?st1) u)"
        "label c' = label c" by auto
      with k(3) show ?thesis by metis
    qed
    with k1 k(2) show ?thesis by auto
  qed
qed

lemma childrenOf_member: "n \<in> set (childrenOf par ast) \<Longrightarrow> n \<in> set (docOrder ast)"
proof (cases par)
  case DocumentRoot
  assume "n \<in> set (childrenOf par ast)"
  with DocumentRoot show ?thesis using roots_in_docOrder [of ast] by auto
next
  case (Parent p)
  assume n: "n \<in> set (childrenOf par ast)"
  with Parent obtain P where P: "nodeAt ast p = Some P" "n \<in> set (childNodes P)"
    by (cases "nodeAt ast p") auto
  from P(1) have "P \<in> set (docOrder ast)"
    by (auto simp: nodeAt_def dest!: find_Some_iff [THEN iffD1] simp: in_set_conv_nth)
  then show ?thesis using P(2) by (rule child_in_docOrder)
qed

lemma injectHtmlImport_appends_beside_container:
  fixes M :: matchers and relativeUrl :: "url \<Rightarrow> url \<Rightarrow> url" and document :: Document
    and bundleUrl :: url and bundleFiles :: "url list" and st :: "ast \<times> nat" and u :: url
  assumes wf: "wfDom st" and u: "u \<noteq> bundleUrl"
    "\<forall>e \<in> set (existingImports document). documentUrl e \<noteq> u"
    and C: "anchorCandidates document bundleFiles (fst st) u = []"
  defines "found \<equiv> findOrCreateHiddenDiv M (fst st, Suc (snd st))"
  defines "container \<equiv> snd (snd found)"
  defines "par \<equiv> parentNode (fst found) container"
  defines "result \<equiv> fst (injectHtmlImport M relativeUrl document bundleUrl bundleFiles st u)"
  shows "childrenOf par result =
      childrenOf par (fst found) @ [createHtmlImport (snd st) (relativeUrl bundleUrl u)]"
    and "container \<in> nid ` set (childrenOf par (fst found))"
    and "childrenOf (Parent container) result = childrenOf (Parent container) (fst found)"
proof -
  let ?new = "createHtmlImport (snd st) (relativeUrl bundleUrl u)"
  from wf have wf1: "wfDom (fst st, Suc (snd st))" by (auto simp: wfDom_def less_Suc_eq)
  from findOrCreateHiddenDiv_wf [OF wf1, of M]
  have d1: "distinct (ids (fst found))" and hd: "container \<in> set (ids (fst found))"
    by (simp_all add: wfDom_def found_def container_def)
  have res: "result = dom5_append par ?new (fst found)"
    unfolding result_def par_def container_def found_def
    by (rule injectHtmlImport_append(1) [OF wf u C])
  have app: "(\<lambda>cs. spliceInsert (int (length cs)) ?new cs) = (\<lambda>cs. cs @ [?new])"
    by (rule ext) (simp add: spliceInsert_at)
  show ch: "childrenOf par result = childrenOf par (fst found) @ [?new]"
    unfolding res dom5_append_def app par_def
    by (rule childrenOf_updateChildren [OF parentNode_valid])
  show cm: "container \<in> nid ` set (childrenOf par (fst found))"
    unfolding par_def by (rule child_of_parentNode [OF d1 hd])
  then obtain D where D: "D \<in> set (childrenOf par (fst found))" "nid D = container" by auto
  from injectHtmlImport_grows [OF wf, of M relativeUrl document bundleUrl bundleFiles u]
  have d2: "distinct (ids result)" by (simp add: wfDom_def result_def)
  from D(1) have "D \<in> set (docOrder (fst found))" by (rule childrenOf_member)
  from nodeAt_member [OF d1 this] D(2) have 1: "nodeAt (fst found) container = Some D" by simp
  from D(1) ch have "D \<in> set (childrenOf par result)" by simp
  then have "D \<in> set (docOrder result)" by (rule childrenOf_member)
  from nodeAt_member [OF d2 this] D(2) have 2: "nodeAt result container = Some D" by simp
  from 1 2 show "childrenOf (Parent container) result = childrenOf (Parent container) (fst found)"
    by simp
qed

text \<open>
  C1, as the code has it. Take a tree with distinct node identities below the next unused one,
  and a member file URL of the bundle that is not the bundle's own URL and has no existing
  eager import in the base document. The candidates are the elements found in the tree for the
  existing direct eager imports that are no members of the bundle and have the URL among their
  transitive eager dependencies.
  \<^item> If there is a candidate, the new link is inserted immediately before a candidate that no
    candidate precedes in source order: the document order gains the new link right before it
    and nothing else changes.
  \<^item> If there is none, the new link becomes the last child of the parent of the hidden container
    (found, or created and attached first): a later sibling of the container, whose own
    children stay as they are.
  \<^item> If the tree is in source order, then after the whole loop over the files of the bundle the
    tree holds a new link for the URL that comes before every candidate in document order.
\<close>

theorem injected_import_position:
  assumes wf: "wfDom st" and u: "u \<noteq> bundleUrl"
    "\<forall>e \<in> set (existingImports document). documentUrl e \<noteq> u"
  shows
   "(let newHtmlImport = createHtmlImport (snd st) (relativeUrl bundleUrl u);
         candidates = anchorCandidates document (files bundle) (fst st) u;
         result = fst (injectHtmlImport M relativeUrl document bundleUrl (files bundle) st u);
         found = findOrCreateHiddenDiv M (fst st, Suc (snd st));
         container = snd (snd found);
         par = parentNode (fst found) container
     in (candidates \<noteq> [] \<longrightarrow>
           (\<exists>t \<in> set candidates. (\<forall>c \<in> set candidates. \<not> inSourceOrder c t) \<and>
              (\<exists>X Y. labels (fst st) = X @ label t # Y \<and>
                 labels result = X @ label newHtmlImport # label t # Y))) \<and>
        (candidates = [] \<longrightarrow>
           childrenOf par result = childrenOf par (fst found) @ [newHtmlImport] \<and>
           container \<in> nid ` set (childrenOf par (fst found)) \<and>
           childrenOf (Parent container) result = childrenOf (Parent container) (fst found)) \<and>
        (sourceOrdered (fst st) \<longrightarrow> u \<in> set (files bundle) \<longrightarrow>
           (\<exists>k. k \<notin> set (ids (fst st)) \<and>
              label (createHtmlImport k (relativeUrl bundleUrl u)) \<in>
                set (labels (fst (injectHtmlImportsForBundle M relativeUrl document bundleUrl bundle st))) \<and>
              (\<forall>c \<in> set candidates.
                 precedes
                   (labels (fst (injectHtmlImportsForBundle M relativeUrl document bundleUrl bundle st)))
                   (label (createHtmlImport k (relativeUrl bundleUrl u))) (label c)))))"
proof -
  have a: "anchorCandidates document (files bundle) (fst st) u \<noteq> [] \<Longrightarrow>
      \<exists>t \<in> set (anchorCandidates document (files bundle) (fst st) u).
        (\<forall>c \<in> set (anchorCandidates document (files bundle) (fst st) u). \<not> inSourceOrder c t) \<and>
        (\<exists>X Y. labels (fst st) = X @ label t # Y \<and>
           labels (fst (injectHtmlImport M relativeUrl document bundleUrl (files bundle) st u)) =
             X @ label (createHtmlImport (snd st) (relativeUrl bundleUrl u)) # label t # Y)"
    using injectHtmlImport_anchor [OF wf u, of "files bundle" M relativeUrl] by blast
  note b =
    injectHtmlImport_appends_beside_container(1) [OF wf u,
      where bundleFiles = "files bundle" and M = M and relativeUrl = relativeUrl]
    injectHtmlImport_appends_beside_container(2) [OF wf u,
      where bundleFiles = "files bundle" and M = M]
    injectHtmlImport_appends_beside_container(3) [OF wf u,
      where bundleFiles = "files bundle" and M = M and relativeUrl = relativeUrl]
  have c: "sourceOrdered (fst st) \<Longrightarrow> u \<in> set (files bundle) \<Longrightarrow>
      \<exists>k. k \<notin> set (ids (fst st)) \<and>
        label (createHtmlImport k (relativeUrl bundleUrl u)) \<in>
          set (labels (fst (injectHtmlImportsForBundle M relativeUrl document bundleUrl bundle st))) \<and>
        (\<forall>c \<in> set (anchorCandidates document (files bundle) (fst st) u).
           precedes
             (labels (fst (injectHtmlImportsForBundle M relativeUrl document bundleUrl bundle st)))
             (label (createHtmlImport k (relativeUrl bundleUrl u))) (label c))"
    unfolding injectHtmlImportsForBundle_def
    by (rule foldl_inject_precedes [OF wf _ _ u])
  from a b c show ?thesis unfolding Let_def by (intro conjI impI)
qed

text \<open>
  C1 as stated fails. The bundle of \<open>entry.html\<close> has the members \<open>m.html\<close> and \<open>u.html\<close>, the
  base document imports \<open>m.html\<close> inside its hidden container, and \<open>m.html\<close> eagerly imports
  \<open>u.html\<close>. The existing import is a member of the bundle, so it is no anchor; the link injected
  for \<open>u.html\<close> is appended to the parent of the hidden container, not into the container, and
  it stands after the existing import of \<open>m.html\<close> that depends on it.
\<close>

theorem injected_import_after_member_counterexample:
  "existingImportDependencies exampleDocument ''m.html'' = Some [''u.html''] \<and>
   fst (injectHtmlImportsForBundle exampleMatchers (\<lambda>bundleUrl importUrl. importUrl) exampleDocument
     ''entry.html''
     \<lparr>entrypoints = [''entry.html''], files = [''entry.html'', ''m.html'', ''u.html''],
       stripImports = []\<rparr>
     (exampleAst, 3)) =
     [Node 1 ''div'' [(''hidden'', ''''), (''by-polymer-bundler'', '''')] (Some (1, 1))
        [Node 2 ''link'' [(''rel'', ''import''), (''href'', ''m.html'')] (Some (1, 34)) []],
      Node 3 ''link'' [(''rel'', ''import''), (''href'', ''u.html'')] None []]"
  by code_simp

lemma example_wf: "wfDom (exampleAst, 3)"
  by code_simp

lemma example_sourceOrdered: "sourceOrdered exampleAst"
  by code_simp

lemma example_no_existing:
  "\<forall>e \<in> set (existingImports exampleDocument). documentUrl e \<noteq> ''u.html''"
  by code_simp

lemma example_candidates:
  "anchorCandidates exampleDocument [''entry.html'', ''u.html''] exampleAst ''u.html'' =
     [exampleImportNode]"
  "anchorCandidates exampleDocument [''entry.html'', ''m.html'', ''u.html''] exampleAst ''u.html'' = []"
  by code_simp+

lemma example_container:
  "fst (findOrCreateHiddenDiv exampleMatchers (exampleAst, Suc 3)) = exampleAst"
  "snd (snd (findOrCreateHiddenDiv exampleMatchers (exampleAst, Suc 3))) = 1"
  "parentNode exampleAst 1 = DocumentRoot"
  by code_simp+

text \<open>
  The theorem at the example document: with \<open>m.html\<close> outside the bundle its import is the
  anchor and the link for \<open>u.html\<close> goes right before it; with \<open>m.html\<close> inside the bundle there
  is no anchor and the link is appended to the root, the parent of the hidden container.
\<close>

theorem injected_import_position_witness:
  "wfDom (exampleAst, 3) \<and> sourceOrdered exampleAst \<and>
   (\<exists>X Y. labels exampleAst = X @ label exampleImportNode # Y \<and>
      labels (fst (injectHtmlImport exampleMatchers (\<lambda>bundleUrl importUrl. importUrl)
        exampleDocument ''entry.html'' [''entry.html'', ''u.html''] (exampleAst, 3) ''u.html'')) =
        X @ label (createHtmlImport 3 ''u.html'') # label exampleImportNode # Y) \<and>
   (\<exists>k. k \<notin> set (ids exampleAst) \<and>
      precedes
        (labels (fst (injectHtmlImportsForBundle exampleMatchers (\<lambda>bundleUrl importUrl. importUrl)
           exampleDocument ''entry.html''
           \<lparr>entrypoints = [''entry.html''], files = [''entry.html'', ''u.html''], stripImports = []\<rparr>
           (exampleAst, 3))))
        (label (createHtmlImport k ''u.html'')) (label exampleImportNode)) \<and>
   childrenOf DocumentRoot
     (fst (injectHtmlImport exampleMatchers (\<lambda>bundleUrl importUrl. importUrl)
        exampleDocument ''entry.html'' [''entry.html'', ''m.html'', ''u.html''] (exampleAst, 3)
        ''u.html'')) =
     exampleAst @ [createHtmlImport 3 ''u.html'']"
proof -
  let ?rel = "\<lambda>bundleUrl importUrl :: url. importUrl"
  let ?A = "\<lparr>entrypoints = [''entry.html''], files = [''entry.html'', ''u.html''],
    stripImports = []\<rparr>"
  let ?B = "\<lparr>entrypoints = [''entry.html''], files = [''entry.html'', ''m.html'', ''u.html''],
    stripImports = []\<rparr>"
  have ne: "''u.html'' \<noteq> ''entry.html''" by simp
  have fA: "files ?A = [''entry.html'', ''u.html'']"
    and fB: "files ?B = [''entry.html'', ''m.html'', ''u.html'']" by simp_all
  note A = injected_import_position [OF example_wf ne example_no_existing,
      of ?rel ?A exampleMatchers, unfolded Let_def fA example_candidates fst_conv snd_conv]
  note B = injected_import_position [OF example_wf ne example_no_existing,
      of ?rel ?B exampleMatchers,
      unfolded Let_def fB example_candidates fst_conv snd_conv example_container]
  from A [THEN conjunct1] have 1:
    "\<exists>X Y. labels exampleAst = X @ label exampleImportNode # Y \<and>
      labels (fst (injectHtmlImport exampleMatchers ?rel exampleDocument ''entry.html''
        [''entry.html'', ''u.html''] (exampleAst, 3) ''u.html'')) =
        X @ label (createHtmlImport 3 ''u.html'') # label exampleImportNode # Y"
    by simp
  from A [THEN conjunct2, THEN conjunct2] example_sourceOrdered have 2:
    "\<exists>k. k \<notin> set (ids exampleAst) \<and>
      precedes
        (labels (fst (injectHtmlImportsForBundle exampleMatchers ?rel exampleDocument ''entry.html''
           ?A (exampleAst, 3))))
        (label (createHtmlImport k ''u.html'')) (label exampleImportNode)"
    by simp blast
  from B [THEN conjunct2, THEN conjunct1] have 3:
    "childrenOf DocumentRoot
       (fst (injectHtmlImport exampleMatchers ?rel exampleDocument ''entry.html''
          [''entry.html'', ''m.html'', ''u.html''] (exampleAst, 3) ''u.html'')) =
     exampleAst @ [createHtmlImport 3 ''u.html'']"
    by simp
  from example_wf example_sourceOrdered 1 2 3 show ?thesis by (intro conjI)
qed

section \<open>Properties of import inlining\<close>








section \<open>Properties of the base document preparation\<close>

lemma unhiddenIn_Nil [simp]: "unhiddenIn E M [] = []"
  by (simp add: unhiddenIn_def)







lemma matches_updNode [simp]: "matches m (updNode p f n) = matches m n"
  by (cases n) (simp add: matches_def)

lemma isElement_updNode [simp]: "isElement (updNode p f n) = isElement n"
  by (cases n) (simp add: isElement_def)




lemma ids_Nil [simp]: "ids [] = []"
  by (simp add: ids_def)
























lemma labelIsElement_label [simp]: "labelIsElement (label n) = isElement n"
  by (simp add: labelIsElement_def isElement_def label_def)



























end
